theory Spec2Isabelle
  imports Complex_Main "HOL-Library.Word" "HOL-Library.Multiset"
begin

section \<open>Orbit Tasks: the data model of script.js\<close>

text \<open>
  A JavaScript string is a sequence of UTF-16 code units. String literals of the
  script are ASCII; \<open>js\<close> turns an ASCII literal into its code units.
\<close>

type_synonym jsstring = "16 word list"

definition js :: "string \<Rightarrow> jsstring" where
  "js s = map (\<lambda>c. of_nat (of_char c)) s"

text \<open>
  A task object, with its four properties in the order \<open>addTask\<close> creates them:
  \<open>id\<close>, \<open>text\<close>, \<open>completed\<close>, \<open>createdAt\<close>. The id is the integer time value
  \<open>Date.now()\<close> returned when the task was created.
\<close>

record task =
  task_id :: int
  task_text :: jsstring
  completed :: bool
  createdAt :: jsstring

subsection \<open>String.prototype.trim\<close>

text \<open>
  \<open>trim\<close> removes leading and trailing WhiteSpace and LineTerminator code points:
  TAB, LF, VT, FF, CR, SPACE, NBSP, the other space separators (U+1680,
  U+2000..U+200A, U+202F, U+205F, U+3000), LS, PS and U+FEFF.
\<close>

definition is_ws :: "16 word \<Rightarrow> bool" where
  "is_ws c \<longleftrightarrow>
     (0x09 \<le> c \<and> c \<le> 0x0D) \<or> c = 0x20 \<or> c = 0xA0 \<or> c = 0x1680 \<or>
     (0x2000 \<le> c \<and> c \<le> 0x200A) \<or> c = 0x2028 \<or> c = 0x2029 \<or>
     c = 0x202F \<or> c = 0x205F \<or> c = 0x3000 \<or> c = 0xFEFF"

definition trim :: "jsstring \<Rightarrow> jsstring" where
  "trim s = rev (dropWhile is_ws (rev (dropWhile is_ws s)))"

subsection \<open>JSON.stringify\<close>

text \<open>
  The values that \<open>JSON.stringify\<close> meets in this program: arrays of objects whose
  properties hold integers, strings and booleans. An object is the list of its
  properties in their order.
\<close>

datatype jsvalue =
    JNull
  | JBool bool
  | JNum int
  | JStr jsstring
  | JArr "jsvalue list"
  | JObj "(jsstring \<times> jsvalue) list"

text \<open>
  Number::toString of an integer below \<open>10 ^ 21\<close> in magnitude: its decimal digits.
  The numbers serialized here are task ids, time values of at most \<open>8.64 * 10 ^ 15\<close>
  in magnitude, which a double holds exactly.
\<close>

fun digits_of_nat :: "nat \<Rightarrow> jsstring" where
  "digits_of_nat n =
     (if n < 10 then [0x30 + of_nat n]
      else digits_of_nat (n div 10) @ [0x30 + of_nat (n mod 10)])"

declare digits_of_nat.simps [simp del]

definition number_to_string :: "int \<Rightarrow> jsstring" where
  "number_to_string i =
     (if i < 0 then 0x2D # digits_of_nat (nat (- i)) else digits_of_nat (nat i))"

text \<open>
  QuoteJSONString. A surrogate pair is copied; a lone surrogate and a control
  character without a short form are written \<open>\uXXXX\<close> in lower-case hexadecimal.
\<close>

definition hex_digit :: "nat \<Rightarrow> 16 word" where
  "hex_digit n = of_nat (if n < 10 then 48 + n else 87 + n)"

definition unicode_escape :: "16 word \<Rightarrow> jsstring" where
  "unicode_escape c =
     (let n = unat c in
      [0x5C, 0x75, hex_digit (n div 4096), hex_digit (n div 256 mod 16),
       hex_digit (n div 16 mod 16), hex_digit (n mod 16)])"

definition is_lead :: "16 word \<Rightarrow> bool" where
  "is_lead c \<longleftrightarrow> 0xD800 \<le> c \<and> c \<le> 0xDBFF"

definition is_trail :: "16 word \<Rightarrow> bool" where
  "is_trail c \<longleftrightarrow> 0xDC00 \<le> c \<and> c \<le> 0xDFFF"

definition quote_unit :: "16 word \<Rightarrow> jsstring" where
  "quote_unit c =
     (if c = 0x08 then [0x5C, 0x62]
      else if c = 0x09 then [0x5C, 0x74]
      else if c = 0x0A then [0x5C, 0x6E]
      else if c = 0x0C then [0x5C, 0x66]
      else if c = 0x0D then [0x5C, 0x72]
      else if c = 0x22 then [0x5C, 0x22]
      else if c = 0x5C then [0x5C, 0x5C]
      else if c < 0x20 then unicode_escape c
      else [c])"

fun quote_units :: "jsstring \<Rightarrow> jsstring" where
  "quote_units [] = []"
| "quote_units [c] =
     (if is_lead c \<or> is_trail c then unicode_escape c else quote_unit c)"
| "quote_units (c # d # cs) =
     (if is_lead c then
        (if is_trail d then c # d # quote_units cs
         else unicode_escape c @ quote_units (d # cs))
      else if is_trail c then unicode_escape c @ quote_units (d # cs)
      else quote_unit c @ quote_units (d # cs))"

definition quote_json_string :: "jsstring \<Rightarrow> jsstring" where
  "quote_json_string s = 0x22 # quote_units s @ [0x22]"

fun join_comma :: "jsstring list \<Rightarrow> jsstring" where
  "join_comma [] = []"
| "join_comma [x] = x"
| "join_comma (x # y # ys) = x @ 0x2C # join_comma (y # ys)"

fun stringify_value :: "jsvalue \<Rightarrow> jsstring" where
  "stringify_value JNull = js ''null''"
| "stringify_value (JBool b) = (if b then js ''true'' else js ''false'')"
| "stringify_value (JNum i) = number_to_string i"
| "stringify_value (JStr s) = quote_json_string s"
| "stringify_value (JArr vs) = 0x5B # join_comma (map stringify_value vs) @ [0x5D]"
| "stringify_value (JObj kvs) =
     0x7B # join_comma (map (\<lambda>(k, v). quote_json_string k @ 0x3A # stringify_value v) kvs)
       @ [0x7D]"

text \<open>A task as the object the script builds, and the task array.\<close>

definition task_to_value :: "task \<Rightarrow> jsvalue" where
  "task_to_value t =
     JObj [(js ''id'', JNum (task_id t)), (js ''text'', JStr (task_text t)),
           (js ''completed'', JBool (completed t)), (js ''createdAt'', JStr (createdAt t))]"

definition JSON_stringify :: "task list \<Rightarrow> jsstring" where
  "JSON_stringify ts = stringify_value (JArr (map task_to_value ts))"

subsection \<open>Application state\<close>

text \<open>
  The module-level variables \<open>tasks\<close> and \<open>currentFilter\<close>, the value of the
  \<open>taskInput\<close> field, the two localStorage entries and the \<open>data-theme\<close> attribute
  of the document body.
\<close>

record app =
  tasks :: "task list"
  currentFilter :: jsstring
  taskInput :: jsstring
  orbitTasks :: "jsstring option"
  orbitTheme :: "jsstring option"
  dataTheme :: jsstring

subsection \<open>Rendering: the view filter and the statistics\<close>

text \<open>The local \<open>filteredTasks\<close> of \<open>renderTasks\<close>.\<close>

definition filteredTasks :: "jsstring \<Rightarrow> task list \<Rightarrow> task list" where
  "filteredTasks mode ts =
     (if mode = js ''active'' then filter (\<lambda>task. \<not> completed task) ts
      else if mode = js ''completed'' then filter (\<lambda>task. completed task) ts
      else ts)"

datatype view = EmptyState jsstring | Rows "task list"

definition renderTasks :: "app \<Rightarrow> view" where
  "renderTasks st =
     (let shown = filteredTasks (currentFilter st) (tasks st) in
      if length shown = 0 then
        EmptyState
          (if currentFilter st = js ''completed'' then js ''No completed tasks yet.''
           else if currentFilter st = js ''active'' then js ''No pending tasks! Great job.''
           else js ''No tasks yet. Start your journey!'')
      else Rows shown)"

subsection \<open>The task store\<close>

text \<open>
  \<open>saveAndRender\<close> writes the serialized collection to the \<open>orbitTasks\<close> entry; the
  rendering that follows reads the state and does not change it. The storage is taken
  to have room for the entry, so that \<open>setItem\<close> returns.
\<close>

definition saveAndRender :: "app \<Rightarrow> app" where
  "saveAndRender st = st\<lparr>orbitTasks := Some (JSON_stringify (tasks st))\<rparr>"

text \<open>
  \<open>addTask\<close> reads the input field; \<open>now\<close> is the value of \<open>Date.now()\<close> and
  \<open>today\<close> the string \<open>new Date().toLocaleDateString()\<close> at the call.
\<close>

definition addTask :: "int \<Rightarrow> jsstring \<Rightarrow> app \<Rightarrow> app" where
  "addTask now today st =
     (let text = trim (taskInput st) in
      if text = [] then st
      else
        let newTask = \<lparr>task_id = now, task_text = text, completed = False, createdAt = today\<rparr>
        in (saveAndRender (st\<lparr>tasks := newTask # tasks st\<rparr>))\<lparr>taskInput := []\<rparr>)"

definition toggleTask :: "int \<Rightarrow> app \<Rightarrow> app" where
  "toggleTask i st =
     saveAndRender (st\<lparr>tasks :=
       map (\<lambda>task. if task_id task = i then task\<lparr>completed := \<not> completed task\<rparr> else task)
         (tasks st)\<rparr>)"

definition deleteTask :: "int \<Rightarrow> app \<Rightarrow> app" where
  "deleteTask i st =
     saveAndRender (st\<lparr>tasks := filter (\<lambda>task. task_id task \<noteq> i) (tasks st)\<rparr>)"

definition editTask :: "int \<Rightarrow> jsstring \<Rightarrow> app \<Rightarrow> app" where
  "editTask i newText st =
     saveAndRender (st\<lparr>tasks :=
       map (\<lambda>task. if task_id task = i then task\<lparr>task_text := newText\<rparr> else task)
         (tasks st)\<rparr>)"

definition clearCompleted :: "app \<Rightarrow> app" where
  "clearCompleted st =
     saveAndRender (st\<lparr>tasks := filter (\<lambda>task. \<not> completed task) (tasks st)\<rparr>)"

text \<open>
  \<open>saveEdit\<close>, the commit step of the inline editor opened by \<open>enableEditMode\<close> for
  the task \<open>i\<close>: \<open>v\<close> is the value of the edit field. With an empty trimmed value the
  row's markup is restored and the store is not called.
\<close>

definition saveEdit :: "int \<Rightarrow> jsstring \<Rightarrow> app \<Rightarrow> app" where
  "saveEdit i v st =
     (let newText = trim v in
      if newText \<noteq> [] then editTask i newText st else st)"

text \<open>The predicate of the data model: the text has a character that is not white space.\<close>

definition blank :: "jsstring \<Rightarrow> bool" where
  "blank s \<longleftrightarrow> list_all is_ws s"

definition texts_ok :: "task list \<Rightarrow> bool" where
  "texts_ok ts \<longleftrightarrow> list_all (\<lambda>t. \<not> blank (task_text t)) ts"

subsection \<open>Numbers and the statistics of \<open>updateStats\<close>\<close>

text \<open>
  A JavaScript number is an IEEE 754 double. The finite doubles are rationals, and
  \<open>/\<close> and \<open>*\<close> return the exact result rounded to the nearest double, ties to the
  even significand. \<open>round_double\<close> rounds to 53 significant bits; the exponent range
  is not limited here, since a quotient of this program is 0 or lies between
  \<open>2 ^ - 32\<close> and 1 (an array has fewer than \<open>2 ^ 32\<close> elements) and a product is
  at most 100.
\<close>

function bit_length :: "int \<Rightarrow> int" where
  "bit_length n = (if n \<le> 0 then 0 else bit_length (n div 2) + 1)"
  by pat_completeness auto
termination
  by (relation "measure nat") auto

declare bit_length.simps [simp del]

text \<open>For \<open>x > 0\<close>, the exponent \<open>e\<close> with \<open>2 ^ e \<le> x < 2 ^ (e + 1)\<close>.\<close>

definition floor_log2 :: "rat \<Rightarrow> int" where
  "floor_log2 x =
     (let (p, q) = quotient_of x;
          e = bit_length p - bit_length q
      in if 2 powi e \<le> x then e else e - 1)"

definition round_double :: "rat \<Rightarrow> rat" where
  "round_double x =
     (if x = 0 then 0
      else
        let a = \<bar>x\<bar>;
            u = 2 powi (floor_log2 a - 52);
            m = a / u;
            f = \<lfloor>m\<rfloor>;
            r = m - of_int f;
            n = (if r < 1 / 2 then f else if 1 / 2 < r then f + 1
                 else if even f then f else f + 1)
        in sgn x * of_int n * u)"

definition js_div :: "rat \<Rightarrow> rat \<Rightarrow> rat" where
  "js_div a b = round_double (a / b)"

definition js_mul :: "rat \<Rightarrow> rat \<Rightarrow> rat" where
  "js_mul a b = round_double (a * b)"

text \<open>\<open>Math.round\<close>: the nearest integer, a tie going to the larger one.\<close>

definition Math_round :: "rat \<Rightarrow> int" where
  "Math_round x = \<lfloor>x + 1 / 2\<rfloor>"

text \<open>
  \<open>updateStats\<close> writes the items-left label, and the percentage as the width of the
  progress bar and as the progress text.
\<close>

record stats =
  itemsLeftLabel :: jsstring
  percent :: int
  progressText :: jsstring

definition updateStats :: "app \<Rightarrow> stats" where
  "updateStats st =
     (let activeCount = length (filter (\<lambda>t. \<not> completed t) (tasks st));
          itemsText = (if activeCount = 1 then js ''item'' else js ''items'');
          total = length (tasks st);
          completedCount = length (filter (\<lambda>t. completed t) (tasks st));
          pct = (if total = 0 then 0
                 else Math_round (js_mul (js_div (of_nat completedCount) (of_nat total)) 100))
      in \<lparr>itemsLeftLabel =
            number_to_string (int activeCount) @ js '' '' @ itemsText @ js '' left'',
          percent = pct,
          progressText = number_to_string pct @ js ''%''\<rparr>)"

text \<open>
  The percentage of the specification read in exact arithmetic,
  \<open>round(completedCount / totalCount * 100)\<close> with a tie rounded up as \<open>Math.round\<close>
  does, and the case that the exact value lies halfway between two integers.
\<close>

definition exact_percent :: "nat \<Rightarrow> nat \<Rightarrow> int" where
  "exact_percent c t = \<lfloor>(of_nat c / of_nat t * 100 :: rat) + 1 / 2\<rfloor>"

definition halfway :: "nat \<Rightarrow> nat \<Rightarrow> bool" where
  "halfway c t \<longleftrightarrow> (of_int (exact_percent c t) :: rat) = of_nat c / of_nat t * 100 + 1 / 2"

subsection \<open>JSON.parse\<close>

text \<open>
  The parser of JSON text. \<open>None\<close> is the SyntaxError that \<open>JSON.parse\<close> throws; a
  number literal with a fraction or an exponent is outside the integers of this model
  and gives \<open>None\<close> as well.
\<close>

definition is_json_ws :: "16 word \<Rightarrow> bool" where
  "is_json_ws c \<longleftrightarrow> c = 0x09 \<or> c = 0x0A \<or> c = 0x0D \<or> c = 0x20"

definition skip_ws :: "jsstring \<Rightarrow> jsstring" where
  "skip_ws s = dropWhile is_json_ws s"

definition hex_value :: "16 word \<Rightarrow> nat option" where
  "hex_value c =
     (let n = unat c in
      if 48 \<le> n \<and> n \<le> 57 then Some (n - 48)
      else if 97 \<le> n \<and> n \<le> 102 then Some (n - 87)
      else if 65 \<le> n \<and> n \<le> 70 then Some (n - 55)
      else None)"

definition hex4 :: "16 word \<Rightarrow> 16 word \<Rightarrow> 16 word \<Rightarrow> 16 word \<Rightarrow> 16 word option" where
  "hex4 a b c d =
     (case (hex_value a, hex_value b, hex_value c, hex_value d) of
        (Some x, Some y, Some z, Some w) \<Rightarrow> Some (of_nat (x * 4096 + y * 256 + z * 16 + w))
      | _ \<Rightarrow> None)"

definition unescape :: "16 word \<Rightarrow> 16 word option" where
  "unescape e =
     (if e = 0x22 then Some 0x22
      else if e = 0x5C then Some 0x5C
      else if e = 0x2F then Some 0x2F
      else if e = 0x62 then Some 0x08
      else if e = 0x66 then Some 0x0C
      else if e = 0x6E then Some 0x0A
      else if e = 0x72 then Some 0x0D
      else if e = 0x74 then Some 0x09
      else None)"

definition cons_unit :: "16 word \<Rightarrow> (jsstring \<times> jsstring) option \<Rightarrow> (jsstring \<times> jsstring) option" where
  "cons_unit c r = map_option (\<lambda>(s, rest). (c # s, rest)) r"

text \<open>The characters of a string literal after its opening quote, and the text after it.\<close>

fun parse_chars :: "jsstring \<Rightarrow> (jsstring \<times> jsstring) option" where
  "parse_chars [] = None"
| "parse_chars (c # cs) =
     (if c = 0x22 then Some ([], cs)
      else if c = 0x5C then
        (case cs of
           [] \<Rightarrow> None
         | e # es \<Rightarrow>
             if e = 0x75 then
               (case es of
                  h3 # h2 # h1 # h0 # rest \<Rightarrow>
                    (case hex4 h3 h2 h1 h0 of
                       None \<Rightarrow> None
                     | Some u \<Rightarrow> cons_unit u (parse_chars rest))
                | _ \<Rightarrow> None)
             else
               (case unescape e of
                  None \<Rightarrow> None
                | Some u \<Rightarrow> cons_unit u (parse_chars es)))
      else if c < 0x20 then None
      else cons_unit c (parse_chars cs))"

definition is_digit :: "16 word \<Rightarrow> bool" where
  "is_digit c \<longleftrightarrow> 0x30 \<le> c \<and> c \<le> 0x39"

definition nat_of_digits :: "jsstring \<Rightarrow> nat" where
  "nat_of_digits ds = foldl (\<lambda>a c. 10 * a + unat (c - 0x30)) 0 ds"

definition parse_number :: "jsstring \<Rightarrow> (jsvalue \<times> jsstring) option" where
  "parse_number s =
     (let neg = (s \<noteq> [] \<and> hd s = 0x2D);
          s1 = (if neg then tl s else s);
          ds = takeWhile is_digit s1;
          rest = dropWhile is_digit s1
      in if ds = [] then None
         else if 1 < length ds \<and> hd ds = 0x30 then None
         else if rest \<noteq> [] \<and> (hd rest = 0x2E \<or> hd rest = 0x65 \<or> hd rest = 0x45) then None
         else Some (JNum (if neg then - int (nat_of_digits ds) else int (nat_of_digits ds)), rest))"

definition parse_literal :: "jsstring \<Rightarrow> (jsvalue \<times> jsstring) option" where
  "parse_literal s =
     (if take 4 s = js ''true'' then Some (JBool True, drop 4 s)
      else if take 5 s = js ''false'' then Some (JBool False, drop 5 s)
      else if take 4 s = js ''null'' then Some (JNull, drop 4 s)
      else parse_number s)"

text \<open>
  An object holds one property for each key: a member whose key is already present
  replaces the value and keeps the place. (The script looks properties up by name; the
  place of a property plays no role in it.)
\<close>

fun set_prop :: "jsstring \<Rightarrow> jsvalue \<Rightarrow> (jsstring \<times> jsvalue) list \<Rightarrow> (jsstring \<times> jsvalue) list" where
  "set_prop k v [] = [(k, v)]"
| "set_prop k v ((k', v') # ps) = (if k' = k then (k, v) # ps else (k', v') # set_prop k v ps)"

definition object_of_members :: "(jsstring \<times> jsvalue) list \<Rightarrow> jsvalue" where
  "object_of_members kvs = JObj (foldl (\<lambda>ps (k, v). set_prop k v ps) [] kvs)"

text \<open>
  The recursive descent. Each call to a nested parser uses one unit of fuel;
  \<open>parse_elements\<close> reads the elements of a non-empty array up to its closing
  bracket, \<open>parse_members\<close> the members of a non-empty object up to its closing brace.
\<close>

fun parse_value :: "nat \<Rightarrow> jsstring \<Rightarrow> (jsvalue \<times> jsstring) option"
  and parse_elements :: "nat \<Rightarrow> jsstring \<Rightarrow> (jsvalue list \<times> jsstring) option"
  and parse_members :: "nat \<Rightarrow> jsstring \<Rightarrow> ((jsstring \<times> jsvalue) list \<times> jsstring) option"
where
  "parse_value 0 s = None"
| "parse_value (Suc n) s =
     (case skip_ws s of
        [] \<Rightarrow> None
      | c # cs \<Rightarrow>
          if c = 0x22 then map_option (\<lambda>(str, r). (JStr str, r)) (parse_chars cs)
          else if c = 0x5B then
            (case skip_ws cs of
               [] \<Rightarrow> None
             | d # ds \<Rightarrow>
                 if d = 0x5D then Some (JArr [], ds)
                 else map_option (\<lambda>(vs, r). (JArr vs, r)) (parse_elements n cs))
          else if c = 0x7B then
            (case skip_ws cs of
               [] \<Rightarrow> None
             | d # ds \<Rightarrow>
                 if d = 0x7D then Some (JObj [], ds)
                 else map_option (\<lambda>(kvs, r). (object_of_members kvs, r)) (parse_members n cs))
          else parse_literal (c # cs))"
| "parse_elements 0 s = None"
| "parse_elements (Suc n) s =
     (case parse_value n s of
        None \<Rightarrow> None
      | Some (v, r) \<Rightarrow>
          (case skip_ws r of
             [] \<Rightarrow> None
           | d # ds \<Rightarrow>
               if d = 0x2C then map_option (\<lambda>(vs, r'). (v # vs, r')) (parse_elements n ds)
               else if d = 0x5D then Some ([v], ds)
               else None))"
| "parse_members 0 s = None"
| "parse_members (Suc n) s =
     (case skip_ws s of
        [] \<Rightarrow> None
      | c # cs \<Rightarrow>
          if c = 0x22 then
            (case parse_chars cs of
               None \<Rightarrow> None
             | Some (k, r) \<Rightarrow>
                 (case skip_ws r of
                    [] \<Rightarrow> None
                  | d # ds \<Rightarrow>
                      if d = 0x3A then
                        (case parse_value n ds of
                           None \<Rightarrow> None
                         | Some (v, r2) \<Rightarrow>
                             (case skip_ws r2 of
                                [] \<Rightarrow> None
                              | e # es \<Rightarrow>
                                  if e = 0x2C then
                                    map_option (\<lambda>(kvs, r3). ((k, v) # kvs, r3)) (parse_members n es)
                                  else if e = 0x7D then Some ([(k, v)], es)
                                  else None))
                      else None))
          else None)"

text \<open>
  The whole text is one value with white space around it. Every nested call consumes
  a character at least every second time, so twice the length of the text is fuel
  enough (lemma \<open>JSON_parse_fuel\<close> below).
\<close>

definition JSON_parse :: "jsstring \<Rightarrow> jsvalue option" where
  "JSON_parse s =
     (case parse_value (2 * length s + 2) s of
        None \<Rightarrow> None
      | Some (v, r) \<Rightarrow> if skip_ws r = [] then Some v else None)"

text \<open>
  The state holds typed tasks. A parsed value is read as the task collection when it
  is an array of objects with a number \<open>id\<close>, a string \<open>text\<close>, a boolean
  \<open>completed\<close> and a string \<open>createdAt\<close>; any other value is outside the model.
\<close>

definition task_of_value :: "jsvalue \<Rightarrow> task option" where
  "task_of_value v =
     (case v of
        JObj ps \<Rightarrow>
          (case (map_of ps (js ''id''), map_of ps (js ''text''),
                 map_of ps (js ''completed''), map_of ps (js ''createdAt'')) of
             (Some (JNum i), Some (JStr t), Some (JBool b), Some (JStr d)) \<Rightarrow>
               Some \<lparr>task_id = i, task_text = t, completed = b, createdAt = d\<rparr>
           | _ \<Rightarrow> None)
      | _ \<Rightarrow> None)"

definition tasks_of_value :: "jsvalue \<Rightarrow> task list option" where
  "tasks_of_value v = (case v of JArr vs \<Rightarrow> those (map task_of_value vs) | _ \<Rightarrow> None)"

subsection \<open>Start of the page\<close>

definition setTheme :: "jsstring \<Rightarrow> app \<Rightarrow> app" where
  "setTheme themeName st = st\<lparr>dataTheme := themeName, orbitTheme := Some themeName\<rparr>"

text \<open>
  The state when the script has run its top level: no tasks, filter \<open>all\<close>, and the
  two storage entries as the browser holds them.
\<close>

definition initial :: "jsstring option \<Rightarrow> jsstring option \<Rightarrow> app" where
  "initial storedTasks storedTheme =
     \<lparr>tasks = [], currentFilter = js ''all'', taskInput = [], orbitTasks = storedTasks,
      orbitTheme = storedTheme, dataTheme = []\<rparr>"

text \<open>
  The \<open>DOMContentLoaded\<close> handler. \<open>None\<close>: \<open>JSON.parse\<close> throws, or the stored value
  is outside the model.
\<close>

definition DOMContentLoaded :: "app \<Rightarrow> app option" where
  "DOMContentLoaded st =
     (let savedTheme = (case orbitTheme st of
                          None \<Rightarrow> js ''ocean''
                        | Some t \<Rightarrow> if t = [] then js ''ocean'' else t);
          st1 = setTheme savedTheme st
      in case orbitTasks st1 of
           None \<Rightarrow> Some st1
         | Some savedTasks \<Rightarrow>
             if savedTasks = [] then Some st1
             else
               (case JSON_parse savedTasks of
                  None \<Rightarrow> None
                | Some v \<Rightarrow>
                    (case tasks_of_value v of
                       None \<Rightarrow> None
                     | Some ts \<Rightarrow> Some (st1\<lparr>tasks := ts\<rparr>))))"

text \<open>The members of a serialized task object, with the closing brace.\<close>

definition member_text :: "task \<Rightarrow> jsstring" where
  "member_text t =
     quote_json_string (js ''id'') @ 0x3A # number_to_string (task_id t) @ 0x2C #
     quote_json_string (js ''text'') @ 0x3A # quote_json_string (task_text t) @ 0x2C #
     quote_json_string (js ''completed'') @ 0x3A # (if completed t then js ''true'' else js ''false'') @ 0x2C #
     quote_json_string (js ''createdAt'') @ 0x3A # quote_json_string (createdAt t) @ [0x7D]"

subsection \<open>Example data\<close>

definition milk :: task where
  "milk = \<lparr>task_id = 1700000000000, task_text = js ''Buy milk'', completed = False,
            createdAt = js ''11/14/2023''\<rparr>"

definition bread :: task where
  "bread = \<lparr>task_id = 1700000000001, task_text = js ''Bake bread'', completed = True,
            createdAt = js ''11/14/2023''\<rparr>"

definition app0 :: app where
  "app0 = \<lparr>tasks = [milk, bread], currentFilter = js ''all'', taskInput = [],
           orbitTasks = None, orbitTheme = None, dataTheme = js ''ocean''\<rparr>"

definition tasks_23_of_40 :: "task list" where
  "tasks_23_of_40 = replicate 23 bread @ replicate 17 milk"

definition tasks_1_of_8 :: "task list" where
  "tasks_1_of_8 = bread # replicate 7 milk"

definition tasks_2_of_3 :: "task list" where
  "tasks_2_of_3 = [bread, milk, bread]"

section \<open>Properties of the task store and the view filter\<close>

subsection \<open>Trimming and blank strings\<close>

lemma dropWhile_all_iff: "(\<forall>x\<in>set (dropWhile P s). P x) \<longleftrightarrow> (\<forall>x\<in>set s. P x)"
proof
  assume a: "\<forall>x\<in>set (dropWhile P s). P x"
  have "dropWhile P s = []"
  proof (rule ccontr)
    assume n: "dropWhile P s \<noteq> []"
    then have "\<not> P (hd (dropWhile P s))" by (rule hd_dropWhile)
    moreover have "hd (dropWhile P s) \<in> set (dropWhile P s)" using n by simp
    ultimately show False using a by blast
  qed
  then show "\<forall>x\<in>set s. P x" by (simp add: dropWhile_eq_Nil_conv)
next
  assume "\<forall>x\<in>set s. P x"
  then show "\<forall>x\<in>set (dropWhile P s). P x" by (meson set_dropWhileD)
qed

lemma trim_empty_iff: "trim s = [] \<longleftrightarrow> blank s"
  by (simp add: trim_def blank_def list_all_iff dropWhile_eq_Nil_conv dropWhile_all_iff)

lemma trim_not_blank: "trim s \<noteq> [] \<Longrightarrow> \<not> blank (trim s)"
proof -
  assume n: "trim s \<noteq> []"
  let ?r = "dropWhile is_ws (rev (dropWhile is_ws s))"
  have "?r \<noteq> []" using n by (simp add: trim_def)
  then have "\<not> is_ws (hd ?r)" by (rule hd_dropWhile)
  moreover have "hd ?r \<in> set (trim s)" using \<open>?r \<noteq> []\<close> by (simp add: trim_def)
  ultimately show ?thesis by (auto simp: blank_def list_all_iff)
qed

lemma tasks_saveAndRender: "tasks (saveAndRender st) = tasks st"
  by (simp add: saveAndRender_def)

lemma js_active_neq_completed: "js ''active'' \<noteq> js ''completed''"
  by (simp add: js_def)

lemma blank_examples: "blank (js ''   '')" "blank []" "\<not> blank (js ''Buy milk'')"
  "\<not> blank (js ''Bake bread'')"
  by (simp_all add: blank_def js_def is_ws_def)

subsection \<open>Adding a task\<close>

text \<open>
  Claim C3. When the trimmed input is not empty, \<open>addTask\<close> puts one new task in
  front of the collection: its text is the trimmed input, it is not completed, and the
  tasks behind it are the previous collection in its order, so the size grows by one.
\<close>

theorem addTask_prepends:
  assumes "trim (taskInput st) \<noteq> []"
  shows "tasks (addTask now today st) =
           \<lparr>task_id = now, task_text = trim (taskInput st), completed = False,
            createdAt = today\<rparr> # tasks st
         \<and> length (tasks (addTask now today st)) = length (tasks st) + 1
         \<and> task_text (hd (tasks (addTask now today st))) = trim (taskInput st)
         \<and> completed (hd (tasks (addTask now today st))) = False
         \<and> tl (tasks (addTask now today st)) = tasks st"
  using assms by (simp add: addTask_def Let_def tasks_saveAndRender)

theorem addTask_prepends_witness:
  "trim (taskInput (app0\<lparr>taskInput := js '' Walk dog ''\<rparr>)) \<noteq> []
   \<and> tasks (addTask 1700000000002 (js ''11/14/2023'') (app0\<lparr>taskInput := js '' Walk dog ''\<rparr>)) =
      [\<lparr>task_id = 1700000000002, task_text = js ''Walk dog'', completed = False,
        createdAt = js ''11/14/2023''\<rparr>, milk, bread]"
proof -
  have t: "trim (js '' Walk dog '') = js ''Walk dog''"
    by (simp add: trim_def js_def is_ws_def)
  have h: "trim (taskInput (app0\<lparr>taskInput := js '' Walk dog ''\<rparr>)) \<noteq> []"
    by (simp add: t) (simp add: js_def)
  show ?thesis
    using h addTask_prepends [OF h, of 1700000000002 "js ''11/14/2023''"]
    by (simp add: t app0_def)
qed

text \<open>
  Claim C4. When the input is empty or holds white space only, \<open>addTask\<close> returns
  at once: the state, and with it the collection, is the one before the call.
\<close>

theorem addTask_blank_noop:
  assumes "blank (taskInput st)"
  shows "addTask now today st = st"
  using assms by (simp add: addTask_def trim_empty_iff)

theorem addTask_blank_noop_witness:
  "blank (taskInput (app0\<lparr>taskInput := js ''   ''\<rparr>))
   \<and> tasks (addTask 1700000000002 (js ''11/14/2023'') (app0\<lparr>taskInput := js ''   ''\<rparr>)) = [milk, bread]"
proof -
  have h: "blank (taskInput (app0\<lparr>taskInput := js ''   ''\<rparr>))"
    by (simp add: blank_examples)
  show ?thesis
    using h addTask_blank_noop [OF h, of 1700000000002 "js ''11/14/2023''"]
    by (simp add: app0_def)
qed

subsection \<open>Toggling a task\<close>

text \<open>
  Claim C5. Toggling the same id twice gives back the collection it started from, with
  every field of every task as before; the state after the two calls is the starting
  state saved once.
\<close>

theorem toggleTask_involution:
  "tasks (toggleTask i (toggleTask i st)) = tasks st
   \<and> toggleTask i (toggleTask i st) = saveAndRender st"
proof -
  have m: "map (\<lambda>task. if task_id task = i then task\<lparr>completed := \<not> completed task\<rparr> else task)
            (map (\<lambda>task. if task_id task = i then task\<lparr>completed := \<not> completed task\<rparr> else task) ts)
           = ts" for ts :: "task list"
    by (induction ts) simp_all
  show ?thesis
    by (simp add: toggleTask_def saveAndRender_def m del: map_map)
qed

theorem toggleTask_involution_witness:
  "tasks (toggleTask 1700000000000 app0) = [milk\<lparr>completed := True\<rparr>, bread]
   \<and> tasks (toggleTask 1700000000000 (toggleTask 1700000000000 app0)) = [milk, bread]"
  using toggleTask_involution [of 1700000000000 app0]
  by (simp add: toggleTask_def saveAndRender_def app0_def milk_def bread_def)

text \<open>
  Claim C8. \<open>toggleTask\<close> keeps the number of tasks and, position by position, the
  id, the text and the creation date of every task; a task whose id differs from the
  argument is unchanged, and a task whose id matches differs in its completed flag only.
\<close>

theorem toggleTask_frame:
  "length (tasks (toggleTask i st)) = length (tasks st)
   \<and> map task_id (tasks (toggleTask i st)) = map task_id (tasks st)
   \<and> map task_text (tasks (toggleTask i st)) = map task_text (tasks st)
   \<and> map createdAt (tasks (toggleTask i st)) = map createdAt (tasks st)
   \<and> (\<forall>k < length (tasks st). task_id (tasks st ! k) \<noteq> i \<longrightarrow>
         tasks (toggleTask i st) ! k = tasks st ! k)
   \<and> (\<forall>k < length (tasks st). task_id (tasks st ! k) = i \<longrightarrow>
         tasks (toggleTask i st) ! k = (tasks st ! k)\<lparr>completed := \<not> completed (tasks st ! k)\<rparr>)"
  by (simp add: toggleTask_def tasks_saveAndRender comp_def)

theorem toggleTask_frame_witness:
  "tasks (toggleTask 1700000000001 app0) ! 0 = milk
   \<and> tasks (toggleTask 1700000000001 app0) ! 1 = bread\<lparr>completed := False\<rparr>
   \<and> length (tasks (toggleTask 1700000000001 app0)) = 2"
  using toggleTask_frame [of 1700000000001 app0]
  by (simp add: app0_def milk_def bread_def)

subsection \<open>The view filter\<close>

text \<open>
  Claim C6. The filter mode \<open>active\<close> keeps the tasks that are not completed and the
  mode \<open>completed\<close> keeps the completed ones. The two results have no task in common,
  together they hold every task of the collection as often as the collection does, and
  each task of the collection is in exactly one of them.
\<close>

theorem filter_partition:
  "filteredTasks (js ''active'') ts = filter (\<lambda>t. completed t = False) ts
   \<and> filteredTasks (js ''completed'') ts = filter (\<lambda>t. completed t = True) ts
   \<and> set (filteredTasks (js ''active'') ts) \<inter> set (filteredTasks (js ''completed'') ts) = {}
   \<and> set (filteredTasks (js ''active'') ts) \<union> set (filteredTasks (js ''completed'') ts) = set ts
   \<and> mset (filteredTasks (js ''active'') ts) + mset (filteredTasks (js ''completed'') ts) = mset ts
   \<and> (\<forall>t \<in> set ts. (t \<in> set (filteredTasks (js ''active'') ts))
                      \<noteq> (t \<in> set (filteredTasks (js ''completed'') ts)))"
proof -
  have a: "filteredTasks (js ''active'') ts = filter (\<lambda>t. \<not> completed t) ts"
    by (simp add: filteredTasks_def)
  have c: "filteredTasks (js ''completed'') ts = filter (\<lambda>t. completed t) ts"
    using js_active_neq_completed by (simp add: filteredTasks_def)
  have m: "mset (filter (\<lambda>t. \<not> completed t) ts) + mset (filter (\<lambda>t. completed t) ts) = mset ts"
    by (induction ts) simp_all
  show ?thesis unfolding a c using m by auto
qed

theorem filter_partition_witness:
  "filteredTasks (js ''active'') [milk, bread] = [milk]
   \<and> filteredTasks (js ''completed'') [milk, bread] = [bread]
   \<and> milk \<noteq> bread"
  using filter_partition [of "[milk, bread]"]
  by (simp add: milk_def bread_def)

text \<open>
  Claim C10. For a filter mode that is neither \<open>active\<close> nor \<open>completed\<close> (such as
  \<open>all\<close>, or any unknown string) the filter step returns the whole collection in its
  order.
\<close>

theorem filter_other_modes:
  assumes "mode \<noteq> js ''active''" and "mode \<noteq> js ''completed''"
  shows "filteredTasks mode ts = ts"
  using assms by (simp add: filteredTasks_def)

theorem filter_other_modes_witness:
  "js ''all'' \<noteq> js ''active'' \<and> js ''all'' \<noteq> js ''completed''
   \<and> filteredTasks (js ''all'') [milk, bread] = [milk, bread]"
proof -
  have h1: "js ''all'' \<noteq> js ''active''" by (simp add: js_def)
  have h2: "js ''all'' \<noteq> js ''completed''" by (simp add: js_def)
  show ?thesis using h1 h2 filter_other_modes [OF h1 h2, of "[milk, bread]"] by simp
qed

subsection \<open>Editing a task\<close>

text \<open>
  Claim C1, as stated, fails for \<open>editTask\<close>: the function has no check of its own
  and assigns the text it is given, here the empty string.
\<close>

theorem editTask_blank_counterexample:
  "milk \<in> set (tasks app0) \<and> task_id milk = 1700000000000 \<and> trim [] = []
   \<and> tasks (editTask 1700000000000 [] app0) = [milk\<lparr>task_text := []\<rparr>, bread]
   \<and> tasks (editTask 1700000000000 [] app0) \<noteq> tasks app0"
  by (simp add: editTask_def saveAndRender_def app0_def milk_def bread_def trim_def js_def)

text \<open>
  Claim C1, amended. The check is made by \<open>saveEdit\<close>, the only caller of
  \<open>editTask\<close>: committing an edit whose trimmed value is empty does not call the store,
  so the state, the collection and every task's text are the ones before the call.
\<close>

theorem saveEdit_blank_noop:
  assumes "trim v = []"
  shows "saveEdit i v st = st \<and> tasks (saveEdit i v st) = tasks st
         \<and> map task_text (tasks (saveEdit i v st)) = map task_text (tasks st)"
  using assms by (simp add: saveEdit_def)

theorem saveEdit_blank_noop_witness:
  "trim (js ''   '') = [] \<and> tasks (saveEdit 1700000000000 (js ''   '') app0) = [milk, bread]"
proof -
  have h: "trim (js ''   '') = []"
    by (simp add: trim_def js_def is_ws_def)
  show ?thesis
    using h saveEdit_blank_noop [OF h, of 1700000000000 app0] by (simp add: app0_def)
qed

subsection \<open>The text invariant\<close>

text \<open>
  Claim C2, as stated, fails: \<open>editTask\<close> with a text of two spaces takes a collection
  whose texts are all non-blank to one with a blank text.
\<close>

theorem texts_ok_counterexample:
  "texts_ok (tasks app0) \<and> \<not> texts_ok (tasks (editTask 1700000000000 (js ''  '') app0))"
  by (simp add: texts_ok_def blank_def editTask_def saveAndRender_def app0_def milk_def
      bread_def js_def is_ws_def)

lemma texts_ok_filter: "texts_ok ts \<Longrightarrow> texts_ok (filter P ts)"
  by (simp add: texts_ok_def list_all_iff)

lemma texts_ok_toggle:
  "texts_ok ts \<Longrightarrow>
   texts_ok (map (\<lambda>task. if task_id task = i then task\<lparr>completed := \<not> completed task\<rparr> else task) ts)"
  by (induction ts) (simp_all add: texts_ok_def)

lemma texts_ok_edit:
  "texts_ok ts \<Longrightarrow> \<not> blank newText \<Longrightarrow>
   texts_ok (map (\<lambda>task. if task_id task = i then task\<lparr>task_text := newText\<rparr> else task) ts)"
  by (induction ts) (simp_all add: texts_ok_def)

text \<open>
  Claim C2, amended. That every task's text has a character which is not white space is
  kept by \<open>addTask\<close>, \<open>toggleTask\<close>, \<open>deleteTask\<close> and \<open>clearCompleted\<close> with any
  arguments, by the edit commit \<open>saveEdit\<close> with any arguments, and by \<open>editTask\<close>
  when the new text is not blank.
\<close>

theorem texts_ok_preserved:
  assumes "texts_ok (tasks st)"
  shows "texts_ok (tasks (addTask now today st))
         \<and> texts_ok (tasks (toggleTask i st))
         \<and> texts_ok (tasks (deleteTask i st))
         \<and> texts_ok (tasks (clearCompleted st))
         \<and> texts_ok (tasks (saveEdit i v st))
         \<and> (\<not> blank newText \<longrightarrow> texts_ok (tasks (editTask i newText st)))"
proof -
  have a: "texts_ok (tasks (addTask now today st))"
  proof (cases "trim (taskInput st) = []")
    case True
    then show ?thesis using assms by (simp add: addTask_def)
  next
    case False
    then have "\<not> blank (trim (taskInput st))" by (rule trim_not_blank)
    then show ?thesis
      using assms False by (simp add: addTask_def Let_def tasks_saveAndRender texts_ok_def)
  qed
  have t: "texts_ok (tasks (toggleTask i st))"
    using assms by (simp add: toggleTask_def tasks_saveAndRender texts_ok_toggle)
  have d: "texts_ok (tasks (deleteTask i st))"
    using assms by (simp add: deleteTask_def tasks_saveAndRender texts_ok_filter)
  have c: "texts_ok (tasks (clearCompleted st))"
    using assms by (simp add: clearCompleted_def tasks_saveAndRender texts_ok_filter)
  have e: "texts_ok (tasks (editTask i x st))" if "\<not> blank x" for x
    using assms that by (simp add: editTask_def tasks_saveAndRender texts_ok_edit)
  have s: "texts_ok (tasks (saveEdit i v st))"
  proof (cases "trim v = []")
    case True
    then show ?thesis using assms by (simp add: saveEdit_def)
  next
    case False
    then have "\<not> blank (trim v)" by (rule trim_not_blank)
    then show ?thesis using False e by (simp add: saveEdit_def)
  qed
  show ?thesis using a t d c s e by blast
qed

theorem texts_ok_preserved_witness:
  "texts_ok (tasks app0) \<and> \<not> blank (js ''Walk dog'')
   \<and> texts_ok (tasks (addTask 1700000000002 (js ''11/14/2023'') (app0\<lparr>taskInput := js '' Walk dog ''\<rparr>)))
   \<and> texts_ok (tasks (editTask 1700000000000 (js ''Walk dog'') app0))
   \<and> tasks (editTask 1700000000000 (js ''Walk dog'') app0) = [milk\<lparr>task_text := js ''Walk dog''\<rparr>, bread]"
proof -
  have h: "texts_ok (tasks app0)"
    by (simp add: texts_ok_def app0_def milk_def bread_def blank_examples)
  have h': "texts_ok (tasks (app0\<lparr>taskInput := js '' Walk dog ''\<rparr>))"
    using h by simp
  have n: "\<not> blank (js ''Walk dog'')"
    by (simp add: blank_def js_def is_ws_def)
  have e: "tasks (editTask 1700000000000 (js ''Walk dog'') app0) = [milk\<lparr>task_text := js ''Walk dog''\<rparr>, bread]"
    by (simp add: editTask_def saveAndRender_def app0_def milk_def bread_def)
  show ?thesis
    using h n e texts_ok_preserved [OF h, of 0 "[]" 1700000000000 "[]" "js ''Walk dog''"]
      texts_ok_preserved [OF h', of 1700000000002 "js ''11/14/2023''" 0 "[]" "[]"]
    by simp
qed

section \<open>Statistics\<close>

subsection \<open>Rounding to a double\<close>

text \<open>
  \<open>floor_log2\<close> is the binary exponent of a positive rational, and \<open>round_double\<close>
  returns a 53-bit significand scaled by a power of two that lies within half a unit
  in the last place of its argument.
\<close>

lemma bit_length_pos: "0 < n \<Longrightarrow> 0 < bit_length n"
proof (induction n rule: bit_length.induct)
  case (1 n)
  show ?case
  proof (cases "0 < n div 2")
    case True
    then have "0 < bit_length (n div 2)" using 1 by simp
    then show ?thesis using 1(2) by (simp add: bit_length.simps [of n])
  next
    case False
    then have "bit_length (n div 2) = 0" by (simp add: bit_length.simps [of "n div 2"])
    then show ?thesis using 1(2) by (simp add: bit_length.simps [of n])
  qed
qed

lemma bit_length_bounds:
  "0 < n \<Longrightarrow> 2 ^ nat (bit_length n - 1) \<le> n \<and> n < 2 ^ nat (bit_length n)"
proof (induction n rule: bit_length.induct)
  case (1 n)
  show ?case
  proof (cases "0 < n div 2")
    case True
    let ?k = "bit_length (n div 2)"
    have k: "0 < ?k" using True by (rule bit_length_pos)
    have ih: "2 ^ nat (?k - 1) \<le> n div 2 \<and> n div 2 < 2 ^ nat ?k"
      using 1 True by simp
    have b: "bit_length n = ?k + 1"
      using 1(2) by (simp add: bit_length.simps [of n])
    have p: "(2::int) ^ nat ?k = 2 * 2 ^ nat (?k - 1)"
      using k by (metis Suc_nat_eq_nat_zadd1 add.commute diff_add_cancel diff_ge_0_iff_ge
          int_one_le_iff_zero_less power_Suc)
    have q: "(2::int) ^ nat (?k + 1) = 2 * 2 ^ nat ?k"
      using k by (simp add: nat_add_distrib)
    have "2 * (n div 2) \<le> n" "n \<le> 2 * (n div 2) + 1" by presburger+
    then show ?thesis
      using ih unfolding b q by (simp add: p)
  next
    case False
    then have n1: "n = 1" using 1(2) by presburger
    have "bit_length 1 = 1"
      by (simp add: bit_length.simps [of 1] bit_length.simps [of 0])
    then show ?thesis using n1 by simp
  qed
qed


lemma bit_length_powi:
  assumes "0 < n"
  shows "2 powi (bit_length n - 1) \<le> (of_int n :: rat)" and "(of_int n :: rat) < 2 powi bit_length n"
proof -
  have k: "0 < bit_length n" using assms by (rule bit_length_pos)
  have b: "2 ^ nat (bit_length n - 1) \<le> n" "n < 2 ^ nat (bit_length n)"
    using bit_length_bounds [OF assms] by simp_all
  have "(of_int (2 ^ nat (bit_length n - 1)) :: rat) \<le> of_int n"
    using b(1) by (simp only: of_int_le_iff)
  then show "2 powi (bit_length n - 1) \<le> (of_int n :: rat)"
    using k by (simp add: power_int_def)
  have "(of_int n :: rat) < of_int (2 ^ nat (bit_length n))"
    using b(2) by (simp only: of_int_less_iff)
  then show "(of_int n :: rat) < 2 powi bit_length n"
    using k by (simp add: power_int_def)
qed

lemma floor_log2_bounds:
  assumes "0 < x"
  shows "2 powi floor_log2 x \<le> x \<and> x < 2 powi (floor_log2 x + 1)"
proof -
  obtain p q where pq: "quotient_of x = (p, q)" by (cases "quotient_of x")
  have q: "0 < q" using quotient_of_denom_pos [OF pq] .
  have x: "x = of_int p / of_int q" using quotient_of_div [OF pq] .
  have p: "0 < p" using assms q x by (simp add: zero_less_divide_iff)
  let ?a = "bit_length p" and ?b = "bit_length q"
  have up: "x < 2 powi (?a - ?b + 1)"
  proof -
    have "of_int p / of_int q < (2::rat) powi ?a / 2 powi (?b - 1)"
      using bit_length_powi [OF p] bit_length_powi [OF q] p
      by (intro frac_less) simp_all
    also have "\<dots> = 2 powi (?a - (?b - 1))"
      by (simp add: power_int_diff)
    finally show ?thesis by (simp add: x algebra_simps)
  qed
  have lo: "2 powi (?a - ?b - 1) < x"
  proof -
    have "(2::rat) powi (?a - 1) / 2 powi ?b < of_int p / of_int q"
      using bit_length_powi [OF p] bit_length_powi [OF q] q
      by (intro frac_less2) simp_all
    moreover have "(2::rat) powi (?a - 1) / 2 powi ?b = 2 powi (?a - 1 - ?b)"
      by (simp add: power_int_diff)
    ultimately show ?thesis by (simp add: x algebra_simps)
  qed
  show ?thesis
  proof (cases "2 powi (?a - ?b) \<le> x")
    case True
    then show ?thesis using up by (simp add: floor_log2_def pq)
  next
    case False
    then show ?thesis using lo by (simp add: floor_log2_def pq)
  qed
qed

lemma nearest_integer:
  fixes m :: rat
  defines "f \<equiv> \<lfloor>m\<rfloor>"
  defines "r \<equiv> m - of_int f"
  defines "n \<equiv> (if r < 1 / 2 then f else if 1 / 2 < r then f + 1
                   else if even f then f else f + 1)"
  shows "\<bar>of_int n - m\<bar> \<le> 1 / 2" and "f \<le> n" and "n \<le> f + 1"
proof -
  have "of_int f \<le> m" "m < of_int f + 1"
    unfolding f_def by linarith+
  then have r: "0 \<le> r" "r < 1" unfolding r_def by simp_all
  have m: "m = of_int f + r" unfolding r_def by simp
  show "\<bar>of_int n - m\<bar> \<le> 1 / 2"
    unfolding m n_def using r by (simp add: abs_if)
  show "f \<le> n" "n \<le> f + 1"
    unfolding n_def by simp_all
qed

lemma round_double_nearest:
  assumes "x \<noteq> 0"
  shows "\<exists>n. round_double x = sgn x * of_int n * 2 powi (floor_log2 \<bar>x\<bar> - 52)
             \<and> 2 ^ 52 \<le> n \<and> n \<le> 2 ^ 53
             \<and> \<bar>round_double x - x\<bar> \<le> 2 powi (floor_log2 \<bar>x\<bar> - 53)"
proof -
  define e where "e = floor_log2 \<bar>x\<bar>"
  define u :: rat where "u = 2 powi (e - 52)"
  define m where "m = \<bar>x\<bar> / u"
  define n where "n = (if m - of_int \<lfloor>m\<rfloor> < 1 / 2 then \<lfloor>m\<rfloor>
                       else if 1 / 2 < m - of_int \<lfloor>m\<rfloor> then \<lfloor>m\<rfloor> + 1
                       else if even \<lfloor>m\<rfloor> then \<lfloor>m\<rfloor> else \<lfloor>m\<rfloor> + 1)"
  have a: "0 < \<bar>x\<bar>" using assms by simp
  have u: "0 < u" by (simp add: u_def)
  have eb: "2 powi e \<le> \<bar>x\<bar>" "\<bar>x\<bar> < 2 powi (e + 1)"
    using floor_log2_bounds [OF a] by (simp_all add: e_def)
  have p52: "(2::rat) powi e / u = 2 ^ 52"
    by (simp add: u_def power_int_diff)
  have p53: "(2::rat) powi (e + 1) / u = 2 ^ 53"
    by (simp add: u_def power_int_diff power_int_add)
  have m1: "2 ^ 52 \<le> m"
    using divide_right_mono [OF eb(1), of u] u unfolding p52 m_def by simp
  have m2: "m < 2 ^ 53"
    using divide_strict_right_mono [OF eb(2) u] unfolding p53 m_def by simp
  have f1: "2 ^ 52 \<le> \<lfloor>m\<rfloor>"
    using m1 by (simp add: le_floor_iff)
  have f2: "\<lfloor>m\<rfloor> + 1 \<le> 2 ^ 53"
    using m2 by (simp add: floor_less_iff)
  have d: "\<bar>of_int n - m\<bar> \<le> 1 / 2" and n1: "\<lfloor>m\<rfloor> \<le> n" and n2: "n \<le> \<lfloor>m\<rfloor> + 1"
    unfolding n_def by (rule nearest_integer)+
  have rd: "round_double x = sgn x * of_int n * u"
    using assms by (simp add: round_double_def Let_def n_def m_def u_def e_def)
  have xm: "x = sgn x * (m * u)"
    using u by (simp add: m_def sgn_mult_abs)
  have "round_double x - x = sgn x * of_int n * u - sgn x * (m * u)"
    using rd xm by simp
  also have "\<dots> = sgn x * ((of_int n - m) * u)"
    by (simp add: algebra_simps)
  finally have "\<bar>round_double x - x\<bar> = \<bar>of_int n - m\<bar> * u"
    using assms u by (simp add: abs_mult)
  also have "\<dots> \<le> 1 / 2 * u"
    using d u by (intro mult_right_mono) simp_all
  also have "1 / 2 * u = 2 powi (e - 53)"
  proof -
    have "(2::rat) powi ((e - 53) + 1) = 2 powi (e - 53) * 2 powi 1"
      by (rule power_int_add) simp
    moreover have "e - 53 + 1 = e - 52" by simp
    ultimately have "u = 2 powi (e - 53) * 2"
      unfolding u_def by simp
    then show ?thesis by simp
  qed
  finally have err: "\<bar>round_double x - x\<bar> \<le> 2 powi (e - 53)" .
  have "2 ^ 52 \<le> n" "n \<le> 2 ^ 53"
    using f1 f2 n1 n2 by linarith+
  then show ?thesis
    using rd err unfolding u_def e_def by blast
qed

text \<open>
  The error of the two roundings in \<open>(completed / total) * 100\<close>: the double product
  is within \<open>2 ^ - 45\<close> of the exact one.
\<close>

lemma floor_log2_less:
  assumes "0 < z" and "z < 2 powi E"
  shows "floor_log2 z < E"
proof (rule ccontr)
  assume "\<not> floor_log2 z < E"
  then have "E \<le> floor_log2 z" by simp
  then have "(2::rat) powi E \<le> 2 powi floor_log2 z"
    by (intro power_int_increasing) simp_all
  moreover have "2 powi floor_log2 z \<le> z"
    using floor_log2_bounds [OF assms(1)] by simp
  ultimately show False using assms(2) by simp
qed

lemma round_double_error:
  assumes "0 < z" and "z < 2 powi E"
  shows "\<bar>round_double z - z\<bar> \<le> 2 powi (E - 54)"
proof -
  have z: "z \<noteq> 0" "\<bar>z\<bar> = z" using assms(1) by simp_all
  have "\<bar>round_double z - z\<bar> \<le> 2 powi (floor_log2 z - 53)"
    using round_double_nearest [OF z(1)] z(2) by auto
  also have "\<dots> \<le> 2 powi (E - 54)"
    using floor_log2_less [OF assms] by (intro power_int_increasing) simp_all
  finally show ?thesis .
qed

lemma round_double_pos:
  assumes "0 < z"
  shows "0 < round_double z"
proof -
  have z: "z \<noteq> 0" "\<bar>z\<bar> = z" "sgn z = 1" using assms by simp_all
  obtain n where n: "round_double z = sgn z * of_int n * 2 powi (floor_log2 \<bar>z\<bar> - 52)"
    and n52: "2 ^ 52 \<le> n"
    using round_double_nearest [OF z(1)] by blast
  have "0 < n" using n52 by (rule less_le_trans [rotated]) simp
  then show ?thesis
    unfolding n z by simp
qed

lemma product_error:
  fixes q :: rat
  assumes "0 < q" and "q \<le> 1"
  shows "\<bar>js_mul (round_double q) 100 - q * 100\<bar> \<le> 2 powi (- 45)"
proof -
  define p where "p = round_double q"
  have q2: "q < 2 powi 1" using assms(2) by simp
  have pq: "\<bar>p - q\<bar> \<le> 2 powi (- 53)"
    using round_double_error [OF assms(1) q2] by (simp add: p_def)
  have p0: "0 < p" unfolding p_def using assms(1) by (rule round_double_pos)
  have small: "(2::rat) powi (- 53) \<le> 1 / 4"
    by simp
  have "p \<le> q + 2 powi (- 53)" using pq by linarith
  then have "p \<le> 5 / 4" using assms(2) small by linarith
  then have z7: "p * 100 < 2 powi 7" by simp
  have z0: "0 < p * 100" using p0 by simp
  have e1: "\<bar>round_double (p * 100) - p * 100\<bar> \<le> 2 powi (- 47)"
    using round_double_error [OF z0 z7] by simp
  have e2: "\<bar>p * 100 - q * 100\<bar> \<le> 100 * 2 powi (- 53)"
    using pq by linarith
  have s: "(2::rat) powi (- 47) + 100 * 2 powi (- 53) \<le> 2 powi (- 45)"
    by simp
  have "\<bar>round_double (p * 100) - q * 100\<bar> \<le> 2 powi (- 47) + 100 * 2 powi (- 53)"
    using e1 e2 by linarith
  then show ?thesis
    using s unfolding js_mul_def p_def by linarith
qed

text \<open>
  A value close to a fraction \<open>a / b\<close> has the floor of the fraction unless the fraction
  is an integer; then its floor is that integer or the one below.
\<close>

lemma floor_near_fraction:
  fixes v :: rat and a b :: int
  assumes b: "0 < b" and d: "\<bar>v - of_int a / of_int b\<bar> < 1 / of_int b"
  shows "of_int \<lfloor>of_int a / of_int b :: rat\<rfloor> \<noteq> (of_int a / of_int b :: rat)
           \<Longrightarrow> \<lfloor>v\<rfloor> = \<lfloor>of_int a / of_int b :: rat\<rfloor>"
    and "of_int \<lfloor>of_int a / of_int b :: rat\<rfloor> = (of_int a / of_int b :: rat)
           \<Longrightarrow> \<lfloor>v\<rfloor> = \<lfloor>of_int a / of_int b :: rat\<rfloor> \<or> \<lfloor>v\<rfloor> = \<lfloor>of_int a / of_int b :: rat\<rfloor> - 1"
proof -
  define w :: rat where "w = of_int a / of_int b"
  define k where "k = \<lfloor>w\<rfloor>"
  have bq: "(0::rat) < of_int b" using b by simp
  have wb: "w * of_int b = of_int a" using bq by (simp add: w_def)
  have kw: "of_int k \<le> w" "w < of_int k + 1" unfolding k_def by linarith+
  have dv: "w - 1 / of_int b < v" "v < w + 1 / of_int b"
    using d unfolding w_def by linarith+
  have b1: "1 / (of_int b :: rat) \<le> 1"
    using b by simp
  {
    assume "of_int k \<noteq> w"
    then have "of_int k < w" using kw(1) by simp
    then have "of_int k * of_int b < w * (of_int b :: rat)"
      using bq by (simp add: mult_strict_right_mono)
    then have "(of_int (k * b) :: rat) < of_int a" by (simp add: wb)
    then have "k * b < a" by (simp only: of_int_less_iff)
    then have "k * b + 1 \<le> a" by simp
    then have "(of_int (k * b + 1) :: rat) \<le> of_int a" by (simp only: of_int_le_iff)
    then have "of_int k * of_int b + 1 \<le> w * (of_int b :: rat)" by (simp add: wb)
    then have lo: "of_int k + 1 / of_int b \<le> w"
      using bq by (simp add: field_simps)
    have "w * (of_int b :: rat) < (of_int k + 1) * of_int b"
      using kw(2) bq by (simp add: mult_strict_right_mono)
    then have "(of_int a :: rat) < of_int ((k + 1) * b)" by (simp add: wb)
    then have "a < (k + 1) * b" by (simp only: of_int_less_iff)
    then have "a + 1 \<le> (k + 1) * b" by simp
    then have "(of_int (a + 1) :: rat) \<le> of_int ((k + 1) * b)" by (simp only: of_int_le_iff)
    then have "w * (of_int b :: rat) + 1 \<le> (of_int k + 1) * of_int b" by (simp add: wb)
    then have hi: "w + 1 / of_int b \<le> of_int k + 1"
      using bq by (simp add: field_simps)
    have "of_int k \<le> v" "v < of_int k + 1"
      using lo hi dv by linarith+
    then have "\<lfloor>v\<rfloor> = k" by linarith
  }
  then show "of_int \<lfloor>of_int a / of_int b :: rat\<rfloor> \<noteq> (of_int a / of_int b :: rat)
           \<Longrightarrow> \<lfloor>v\<rfloor> = \<lfloor>of_int a / of_int b :: rat\<rfloor>"
    unfolding k_def w_def by simp
  {
    assume "of_int k = w"
    then have "of_int k - 1 < v" "v < of_int k + 1"
      using dv b1 by linarith+
    then have "\<lfloor>v\<rfloor> = k \<or> \<lfloor>v\<rfloor> = k - 1" by linarith
  }
  then show "of_int \<lfloor>of_int a / of_int b :: rat\<rfloor> = (of_int a / of_int b :: rat)
           \<Longrightarrow> \<lfloor>v\<rfloor> = \<lfloor>of_int a / of_int b :: rat\<rfloor> \<or> \<lfloor>v\<rfloor> = \<lfloor>of_int a / of_int b :: rat\<rfloor> - 1"
    unfolding k_def w_def by simp
qed

lemma percent_vs_exact:
  assumes t: "0 < t" "t < 2 ^ 32" and c: "c \<le> t"
  shows "\<not> halfway c t \<Longrightarrow>
           Math_round (js_mul (js_div (of_nat c) (of_nat t)) 100) = exact_percent c t"
    and "halfway c t \<Longrightarrow>
           Math_round (js_mul (js_div (of_nat c) (of_nat t)) 100) = exact_percent c t
           \<or> Math_round (js_mul (js_div (of_nat c) (of_nat t)) 100) = exact_percent c t - 1"
proof -
  define q :: rat where "q = of_nat c / of_nat t"
  define y where "y = js_mul (js_div (of_nat c) (of_nat t)) 100"
  define a where "a = int (200 * c + t)"
  define b where "b = int (2 * t)"
  have b0: "0 < b" using t(1) by (simp add: b_def)
  have w: "q * 100 + 1 / 2 = of_int a / of_int b"
    using t(1) by (simp add: q_def a_def b_def field_simps)
  have err: "\<bar>y - q * 100\<bar> \<le> 2 powi (- 45)"
  proof (cases "c = 0")
    case True
    then show ?thesis
      by (simp add: y_def q_def js_div_def js_mul_def round_double_def)
  next
    case False
    then have "0 < q" using t(1) by (simp add: q_def)
    moreover have "q \<le> 1" using c t(1) by (simp add: q_def)
    ultimately show ?thesis
      unfolding y_def js_div_def q_def [symmetric] by (rule product_error)
  qed
  have "b < 2 ^ 33" using t(2) by (simp add: b_def)
  then have "(of_int b :: rat) < of_int (2 ^ 33)" by (simp only: of_int_less_iff)
  then have "(of_int b :: rat) < 2 ^ 33" by simp
  then have "1 / 2 ^ 33 < 1 / (of_int b :: rat)"
    using b0 by (intro divide_strict_left_mono) simp_all
  moreover have "(2::rat) powi (- 45) < 1 / 2 ^ 33" by simp
  ultimately have "\<bar>(y + 1 / 2) - of_int a / of_int b\<bar> < 1 / of_int b"
    using err unfolding w [symmetric] by linarith
  note near = floor_near_fraction [OF b0 this]
  have m: "Math_round y = \<lfloor>y + 1 / 2\<rfloor>" by (simp add: Math_round_def)
  have e: "exact_percent c t = \<lfloor>of_int a / of_int b :: rat\<rfloor>"
    unfolding exact_percent_def q_def [symmetric] w ..
  have h: "halfway c t \<longleftrightarrow> (of_int \<lfloor>of_int a / of_int b :: rat\<rfloor> :: rat) = of_int a / of_int b"
    unfolding halfway_def e q_def [symmetric] w ..
  show "\<not> halfway c t \<Longrightarrow>
           Math_round (js_mul (js_div (of_nat c) (of_nat t)) 100) = exact_percent c t"
    using near(1) unfolding h e m [unfolded y_def, symmetric] y_def by simp
  show "halfway c t \<Longrightarrow>
           Math_round (js_mul (js_div (of_nat c) (of_nat t)) 100) = exact_percent c t
           \<or> Math_round (js_mul (js_div (of_nat c) (of_nat t)) 100) = exact_percent c t - 1"
    using near(2) unfolding h e m [unfolded y_def, symmetric] y_def by simp
qed

lemma percent_nonempty:
  "tasks st \<noteq> [] \<Longrightarrow>
   percent (updateStats st) =
     Math_round (js_mul (js_div (of_nat (length (filter (\<lambda>t. completed t) (tasks st))))
                                (of_nat (length (tasks st)))) 100)"
  by (simp add: updateStats_def Let_def)

subsection \<open>The completion percentage\<close>

text \<open>The double nearest to one tenth, as a check of \<open>round_double\<close>.\<close>

lemma round_double_tenth: "round_double (1 / 10) = 3602879701896397 / 36028797018963968"
  by code_simp

lemma round_double_1: "round_double 1 = 1"
  by code_simp

lemma round_double_100: "round_double 100 = 100"
  by code_simp

lemma Math_round_100: "Math_round 100 = 100"
  by code_simp

lemma all_completed_quotient:
  assumes "ts \<noteq> []" and "list_all completed ts"
  shows "js_mul (js_div (of_nat (length (filter (\<lambda>t. completed t) ts))) (of_nat (length ts))) 100 = 100"
proof -
  have "filter (\<lambda>t. completed t) ts = ts"
    using assms(2) by (simp add: list_all_iff)
  moreover have "(of_nat (length ts) :: rat) / of_nat (length ts) = 1"
    using assms(1) by simp
  ultimately show ?thesis
    by (simp add: js_div_def js_mul_def round_double_1 round_double_100)
qed

lemma percent_cases:
  "percent (updateStats st) =
     (if tasks st = [] then 0
      else if list_all completed (tasks st) then 100
      else Math_round (js_mul (js_div (of_nat (length (filter (\<lambda>t. completed t) (tasks st))))
                                      (of_nat (length (tasks st)))) 100))"
proof (cases "tasks st = []")
  case True
  then show ?thesis by (simp add: updateStats_def)
next
  case False
  show ?thesis
  proof (cases "list_all completed (tasks st)")
    case True
    with False show ?thesis
      by (simp add: updateStats_def Let_def all_completed_quotient Math_round_100)
  next
    case n: False
    with False show ?thesis by (simp add: updateStats_def Let_def)
  qed
qed

lemma percent_counts:
  assumes "length ts = t" and "length (filter (\<lambda>t. completed t) ts) = c" and "0 < t"
  shows "percent (updateStats (st\<lparr>tasks := ts\<rparr>)) =
           Math_round (js_mul (js_div (of_nat c) (of_nat t)) 100)"
proof -
  have "tasks (st\<lparr>tasks := ts\<rparr>) \<noteq> []" using assms(1,3) by auto
  then show ?thesis
    using assms(1,2) percent_nonempty [of "st\<lparr>tasks := ts\<rparr>"] by simp
qed

lemma counts_23_of_40:
  "length tasks_23_of_40 = 40" "length (filter (\<lambda>t. completed t) tasks_23_of_40) = 23"
  by (simp_all add: tasks_23_of_40_def milk_def bread_def)

lemma counts_1_of_8:
  "length tasks_1_of_8 = 8" "length (filter (\<lambda>t. completed t) tasks_1_of_8) = 1"
  by (simp_all add: tasks_1_of_8_def milk_def bread_def)

lemma counts_2_of_3:
  "length tasks_2_of_3 = 3" "length (filter (\<lambda>t. completed t) tasks_2_of_3) = 2"
  by (simp_all add: tasks_2_of_3_def milk_def bread_def)

lemma percent_23_of_40: "percent (updateStats (app0\<lparr>tasks := tasks_23_of_40\<rparr>)) = 57"
proof -
  have q: "Math_round (js_mul (js_div 23 40) 100) = 57"
    by code_simp
  show ?thesis
    using percent_counts [OF counts_23_of_40, of app0] q by simp
qed

lemma percent_1_of_8: "percent (updateStats (app0\<lparr>tasks := tasks_1_of_8\<rparr>)) = 13"
proof -
  have q: "Math_round (js_mul (js_div 1 8) 100) = 13"
    by code_simp
  show ?thesis
    using percent_counts [OF counts_1_of_8, of app0] q by simp
qed

lemma exact_percent_examples:
  "exact_percent 23 40 = 58" "exact_percent 1 8 = 13" "exact_percent 2 3 = 67"
  "exact_percent 1 2 = 50"
  by code_simp+

lemma halfway_examples:
  "halfway 23 40" "halfway 1 8" "\<not> halfway 2 3" "\<not> halfway 1 2"
  by code_simp+

text \<open>
  Claim C7, as stated, fails when \<open>round(completedCount / totalCount * 100)\<close> is read
  in exact arithmetic: with 23 of 40 tasks completed the exact value is 57.5, which
  rounds to 58, and \<open>updateStats\<close> writes 57, since the double product lies just below
  57.5.
\<close>

theorem percent_exact_counterexample:
  "tasks (app0\<lparr>tasks := tasks_23_of_40\<rparr>) \<noteq> []
   \<and> \<not> list_all completed (tasks (app0\<lparr>tasks := tasks_23_of_40\<rparr>))
   \<and> length (filter completed (tasks (app0\<lparr>tasks := tasks_23_of_40\<rparr>))) = 23
   \<and> length (tasks (app0\<lparr>tasks := tasks_23_of_40\<rparr>)) = 40
   \<and> percent (updateStats (app0\<lparr>tasks := tasks_23_of_40\<rparr>)) = 57
   \<and> exact_percent 23 40 = 58
   \<and> percent (updateStats (app0\<lparr>tasks := tasks_23_of_40\<rparr>)) \<noteq> exact_percent 23 40"
proof -
  have "milk \<in> set tasks_23_of_40" by (simp add: tasks_23_of_40_def)
  moreover have "\<not> completed milk" by (simp add: milk_def)
  ultimately have "\<not> list_all completed tasks_23_of_40"
    by (auto simp: list_all_iff)
  moreover have "tasks_23_of_40 \<noteq> []" using counts_23_of_40(1) by auto
  ultimately show ?thesis
    using counts_23_of_40 percent_23_of_40 exact_percent_examples(1) by simp
qed

text \<open>
  Claim C7, amended. For a collection of fewer than \<open>2 ^ 32\<close> tasks (the limit of an
  array) the percentage written by \<open>updateStats\<close> is 0 for the empty collection and 100
  for a non-empty collection whose tasks are all completed; for every non-empty
  collection it is \<open>Math.round\<close> of the double product \<open>(completed / total) * 100\<close>.
  That number is \<open>round(completedCount / totalCount * 100)\<close> of exact arithmetic
  whenever the exact value is not halfway between two integers; when it is halfway, the
  percentage is the exact value rounded up or one less.
\<close>

theorem percent_exact_or_halfway:
  assumes "length (tasks st) < 2 ^ 32"
  shows "(tasks st = [] \<longrightarrow> percent (updateStats st) = 0)
   \<and> (tasks st \<noteq> [] \<longrightarrow> list_all completed (tasks st) \<longrightarrow> percent (updateStats st) = 100)
   \<and> (tasks st \<noteq> [] \<longrightarrow>
        percent (updateStats st) =
          Math_round (js_mul (js_div (of_nat (length (filter (\<lambda>t. completed t) (tasks st))))
                                     (of_nat (length (tasks st)))) 100))
   \<and> (tasks st \<noteq> [] \<longrightarrow>
        \<not> halfway (length (filter (\<lambda>t. completed t) (tasks st))) (length (tasks st)) \<longrightarrow>
        percent (updateStats st) =
          exact_percent (length (filter (\<lambda>t. completed t) (tasks st))) (length (tasks st)))
   \<and> (tasks st \<noteq> [] \<longrightarrow>
        halfway (length (filter (\<lambda>t. completed t) (tasks st))) (length (tasks st)) \<longrightarrow>
        percent (updateStats st) =
          exact_percent (length (filter (\<lambda>t. completed t) (tasks st))) (length (tasks st))
        \<or> percent (updateStats st) =
          exact_percent (length (filter (\<lambda>t. completed t) (tasks st))) (length (tasks st)) - 1)"
proof (cases "tasks st = []")
  case True
  then show ?thesis by (simp add: updateStats_def)
next
  case False
  let ?c = "length (filter (\<lambda>t. completed t) (tasks st))"
  let ?t = "length (tasks st)"
  have t: "0 < ?t" using False by simp
  have c: "?c \<le> ?t" by simp
  have p: "percent (updateStats st) = Math_round (js_mul (js_div (of_nat ?c) (of_nat ?t)) 100)"
    using False by (rule percent_nonempty)
  have full: "list_all completed (tasks st) \<Longrightarrow> percent (updateStats st) = 100"
    using False percent_cases [of st] by simp
  show ?thesis
    using False p full percent_vs_exact [OF t assms c] by simp
qed

theorem percent_exact_or_halfway_witness:
  "length (tasks (app0\<lparr>tasks := tasks_23_of_40\<rparr>)) < 2 ^ 32
   \<and> halfway 23 40 \<and> exact_percent 23 40 = 58
   \<and> percent (updateStats (app0\<lparr>tasks := tasks_23_of_40\<rparr>)) = 57
   \<and> halfway 1 8 \<and> exact_percent 1 8 = 13
   \<and> percent (updateStats (app0\<lparr>tasks := tasks_1_of_8\<rparr>)) = 13
   \<and> \<not> halfway 2 3
   \<and> percent (updateStats (app0\<lparr>tasks := tasks_2_of_3\<rparr>)) = 67
   \<and> \<not> halfway 1 2
   \<and> percent (updateStats app0) = 50
   \<and> percent (updateStats (app0\<lparr>tasks := []\<rparr>)) = 0
   \<and> percent (updateStats (app0\<lparr>tasks := [bread, bread]\<rparr>)) = 100"
proof -
  have h40: "length (tasks (app0\<lparr>tasks := tasks_23_of_40\<rparr>)) < 2 ^ 32"
    by (simp add: counts_23_of_40)
  have h3: "length (tasks (app0\<lparr>tasks := tasks_2_of_3\<rparr>)) < 2 ^ 32"
    by (simp add: counts_2_of_3)
  have h2: "length (tasks app0) < 2 ^ 32"
    by (simp add: app0_def)
  have h0: "length (tasks (app0\<lparr>tasks := []\<rparr>)) < 2 ^ 32"
    by simp
  have hb: "length (tasks (app0\<lparr>tasks := [bread, bread]\<rparr>)) < 2 ^ 32"
    by simp
  have c2: "length (filter (\<lambda>t. completed t) (tasks app0)) = 1" "length (tasks app0) = 2"
    "tasks app0 \<noteq> []"
    by (simp_all add: app0_def milk_def bread_def)
  have n3: "tasks_2_of_3 \<noteq> []" by (simp add: tasks_2_of_3_def)
  have p3: "percent (updateStats (app0\<lparr>tasks := tasks_2_of_3\<rparr>)) = 67"
    using percent_exact_or_halfway [OF h3] n3 counts_2_of_3 halfway_examples(3)
      exact_percent_examples(3) by simp
  have p2: "percent (updateStats app0) = 50"
    using percent_exact_or_halfway [OF h2] c2 halfway_examples(4) exact_percent_examples(4)
    by simp
  have p0: "percent (updateStats (app0\<lparr>tasks := []\<rparr>)) = 0"
    using percent_exact_or_halfway [OF h0] by simp
  have pb: "percent (updateStats (app0\<lparr>tasks := [bread, bread]\<rparr>)) = 100"
    using percent_exact_or_halfway [OF hb] by (simp add: bread_def)
  show ?thesis
    using h40 percent_exact_or_halfway [OF h40] halfway_examples exact_percent_examples
      percent_23_of_40 percent_1_of_8 p3 p2 p0 pb
    by simp
qed

section \<open>Persistence: \<open>JSON.parse\<close> reads back what \<open>JSON.stringify\<close> wrote\<close>

subsection \<open>String literals\<close>

lemma unat_lt_65536: "unat (c :: 16 word) < 65536"
  using unsigned_less [of c, where ?'a = nat] by simp

lemma hex_value_hex_digit: "n < 16 \<Longrightarrow> hex_value (hex_digit n) = Some n"
  by (simp add: hex_value_def hex_digit_def unat_of_nat)

lemma hex_parts_sum:
  "n div 4096 * 4096 + n div 256 mod 16 * 256 + n div 16 mod 16 * 16 + n mod 16 = n"
  for n :: nat
proof -
  have a: "n = n div 16 * 16 + n mod 16" by simp
  have b: "n div 16 = n div 16 div 16 * 16 + n div 16 mod 16" by simp
  have c: "n div 16 div 16 = n div 16 div 16 div 16 * 16 + n div 16 div 16 mod 16" by simp
  have d: "n div 256 = n div 16 div 16" by (simp add: div_mult2_eq [symmetric])
  have e: "n div 4096 = n div 16 div 16 div 16" by (simp add: div_mult2_eq [symmetric])
  show ?thesis unfolding d e using a b c by linarith
qed

lemma hex4_unicode_escape:
  "hex4 (hex_digit (unat c div 4096)) (hex_digit (unat c div 256 mod 16))
        (hex_digit (unat c div 16 mod 16)) (hex_digit (unat c mod 16)) = Some c"
proof -
  have "unat c div 4096 < 16" using unat_lt_65536 [of c] by simp
  then show ?thesis
    by (simp add: hex4_def hex_value_hex_digit hex_parts_sum)
qed

lemma parse_chars_unicode_escape:
  "parse_chars (unicode_escape c @ zs) = cons_unit c (parse_chars zs)"
  by (simp add: unicode_escape_def Let_def hex4_unicode_escape)

lemma lt_0x20_cases:
  "c < 0x20 \<Longrightarrow> c \<noteq> 0x22 \<and> c \<noteq> 0x5C" for c :: "16 word"
  by auto

lemma parse_chars_quote_unit:
  "parse_chars (quote_unit c @ zs) = cons_unit c (parse_chars zs)"
  by (auto simp: quote_unit_def unescape_def parse_chars_unicode_escape)

lemma surrogate_plain:
  "is_lead c \<or> is_trail c \<Longrightarrow> \<not> c < 0x20 \<and> c \<noteq> 0x22 \<and> c \<noteq> 0x5C"
  by (auto simp: is_lead_def is_trail_def word_le_nat_alt word_less_nat_alt)

lemma parse_chars_surrogate:
  "is_lead c \<or> is_trail c \<Longrightarrow> parse_chars (c # zs) = cons_unit c (parse_chars zs)"
  using surrogate_plain [of c] by simp

lemma parse_chars_quote_units:
  "parse_chars (quote_units s @ 0x22 # rest) = Some (s, rest)"
proof (induction s rule: quote_units.induct)
  case 1
  show ?case by simp
next
  case (2 c)
  show ?case
    by (simp add: parse_chars_unicode_escape parse_chars_quote_unit cons_unit_def)
next
  case (3 c d cs)
  then show ?case
    by (simp add: parse_chars_unicode_escape parse_chars_quote_unit parse_chars_surrogate
        cons_unit_def del: parse_chars.simps)
qed

subsection \<open>Number literals\<close>

lemma unat_digit: "n < 10 \<Longrightarrow> unat (0x30 + of_nat n :: 16 word) = 48 + n"
  by (simp add: unat_word_ariths unat_of_nat)

lemma is_digit_digit: "n < 10 \<Longrightarrow> is_digit (0x30 + of_nat n)"
  by (simp add: is_digit_def word_le_nat_alt unat_digit)

lemma unat_small: "n < 10 \<Longrightarrow> unat (of_nat n :: 16 word) = n"
  by (simp add: unat_of_nat)

lemma of_nat_small_zero: "n < 10 \<Longrightarrow> (of_nat n :: 16 word) = 0 \<longleftrightarrow> n = 0"
  by (auto simp: word_unat_eq_iff unat_small)

lemma digits_all_digit: "list_all is_digit (digits_of_nat n)"
proof (induction n rule: digits_of_nat.induct)
  case (1 n)
  show ?case
  proof (cases "n < 10")
    case True
    then show ?thesis by (simp add: digits_of_nat.simps [of n] is_digit_digit)
  next
    case False
    then show ?thesis
      using 1 by (simp add: digits_of_nat.simps [of n] is_digit_digit)
  qed
qed

lemma digits_nonempty: "digits_of_nat n \<noteq> []"
  by (simp add: digits_of_nat.simps [of n])

lemma nat_of_digits_snoc: "nat_of_digits (ds @ [c]) = 10 * nat_of_digits ds + unat (c - 0x30)"
  by (simp add: nat_of_digits_def)

lemma nat_of_digits_digits: "nat_of_digits (digits_of_nat n) = n"
proof (induction n rule: digits_of_nat.induct)
  case (1 n)
  show ?case
  proof (cases "n < 10")
    case True
    then show ?thesis
      by (simp add: digits_of_nat.simps [of n] nat_of_digits_def unat_small)
  next
    case False
    then have "nat_of_digits (digits_of_nat (n div 10)) = n div 10" using 1 by simp
    then show ?thesis
      using False by (simp add: digits_of_nat.simps [of n] nat_of_digits_snoc unat_small)
  qed
qed

lemma hd_digits_zero_iff: "hd (digits_of_nat n) = 0x30 \<longleftrightarrow> n = 0"
proof (induction n rule: digits_of_nat.induct)
  case (1 n)
  show ?case
  proof (cases "n < 10")
    case True
    then show ?thesis
      by (simp add: digits_of_nat.simps [of n] of_nat_small_zero)
  next
    case False
    then have "hd (digits_of_nat (n div 10)) = 0x30 \<longleftrightarrow> n div 10 = 0" using 1 by simp
    moreover have "n div 10 \<noteq> 0" using False by simp
    ultimately show ?thesis
      using False by (simp add: digits_of_nat.simps [of n] digits_nonempty)
  qed
qed

lemma length_digits_zero: "length (digits_of_nat 0) = 1"
  by (simp add: digits_of_nat.simps [of 0])

lemma comma_not_digit: "\<not> is_digit 0x2C"
  by (simp add: is_digit_def)

lemma takeWhile_digits: "takeWhile is_digit (digits_of_nat n @ 0x2C # rest) = digits_of_nat n"
  using digits_all_digit [of n] comma_not_digit
  by (simp add: takeWhile_append2 list_all_iff)

lemma dropWhile_digits: "dropWhile is_digit (digits_of_nat n @ 0x2C # rest) = 0x2C # rest"
  using digits_all_digit [of n] comma_not_digit
  by (simp add: dropWhile_append2 list_all_iff)

lemma hd_digits_not_minus: "hd (digits_of_nat n) \<noteq> 0x2D"
proof -
  have "hd (digits_of_nat n) \<in> set (digits_of_nat n)"
    using digits_nonempty by simp
  then have "is_digit (hd (digits_of_nat n))"
    using digits_all_digit [of n] by (simp add: list_all_iff)
  then show ?thesis by (auto simp: is_digit_def)
qed

lemma leading_zero_free: "\<not> (1 < length (digits_of_nat n) \<and> hd (digits_of_nat n) = 0x30)"
  by (cases "n = 0") (simp_all add: length_digits_zero hd_digits_zero_iff)

lemma parse_number_nat:
  "parse_number (digits_of_nat n @ 0x2C # rest) = Some (JNum (int n), 0x2C # rest)"
  using hd_digits_not_minus [of n] digits_nonempty [of n] leading_zero_free [of n]
  by (simp add: parse_number_def Let_def takeWhile_digits dropWhile_digits nat_of_digits_digits)

lemma parse_number_neg:
  "parse_number (0x2D # digits_of_nat n @ 0x2C # rest) = Some (JNum (- int n), 0x2C # rest)"
  using digits_nonempty [of n] leading_zero_free [of n]
  by (simp add: parse_number_def Let_def takeWhile_digits dropWhile_digits nat_of_digits_digits)

lemma parse_number_to_string:
  "parse_number (number_to_string i @ 0x2C # rest) = Some (JNum i, 0x2C # rest)"
  by (simp add: number_to_string_def parse_number_nat parse_number_neg)

subsection \<open>Values and object members\<close>

lemma skip_ws_Cons: "\<not> is_json_ws c \<Longrightarrow> skip_ws (c # cs) = c # cs"
  by (simp add: skip_ws_def)

lemma not_ws_punct:
  "\<not> is_json_ws 0x22" "\<not> is_json_ws 0x2C" "\<not> is_json_ws 0x3A" "\<not> is_json_ws 0x5B"
  "\<not> is_json_ws 0x5D" "\<not> is_json_ws 0x7B" "\<not> is_json_ws 0x7D"
  by (simp_all add: is_json_ws_def)

lemma parse_value_string:
  "parse_value (Suc n) (quote_json_string s @ rest) = Some (JStr s, rest)"
  by (simp add: quote_json_string_def skip_ws_Cons not_ws_punct parse_chars_quote_units)

lemma parse_value_bool:
  "parse_value (Suc n) ((if b then js ''true'' else js ''false'') @ rest) = Some (JBool b, rest)"
  by (simp add: js_def skip_ws_Cons is_json_ws_def parse_literal_def)

lemma number_first:
  "\<exists>c cs. number_to_string i = c # cs \<and> (is_digit c \<or> c = 0x2D)"
proof (cases "i < 0")
  case True
  then show ?thesis by (simp add: number_to_string_def)
next
  case False
  obtain c cs where e: "digits_of_nat (nat i) = c # cs"
    using digits_nonempty [of "nat i"] by (cases "digits_of_nat (nat i)") auto
  have "is_digit c"
    using digits_all_digit [of "nat i"] e by simp
  then show ?thesis using False e by (simp add: number_to_string_def)
qed

lemma parse_value_number_start:
  assumes "is_digit c \<or> c = 0x2D"
  shows "parse_value (Suc n) (c # cs) = parse_number (c # cs)"
proof -
  have w: "\<not> is_json_ws c"
    using assms by (auto simp: is_digit_def is_json_ws_def)
  have p: "c \<noteq> 0x22 \<and> c \<noteq> 0x5B \<and> c \<noteq> 0x7B \<and> c \<noteq> 0x74 \<and> c \<noteq> 0x66 \<and> c \<noteq> 0x6E"
    using assms by (auto simp: is_digit_def)
  have l: "parse_literal (c # cs) = parse_number (c # cs)"
    using p by (auto simp: parse_literal_def js_def take_Cons')
  show ?thesis
    using p by (simp add: skip_ws_Cons [OF w] l)
qed

lemma parse_value_number:
  "parse_value (Suc n) (number_to_string i @ 0x2C # rest) = Some (JNum i, 0x2C # rest)"
proof -
  obtain c cs where e: "number_to_string i = c # cs" and d: "is_digit c \<or> c = 0x2D"
    using number_first [of i] by blast
  have "parse_value (Suc n) (number_to_string i @ 0x2C # rest)
          = parse_number (number_to_string i @ 0x2C # rest)"
    unfolding e using parse_value_number_start [OF d] by simp
  then show ?thesis by (simp add: parse_number_to_string)
qed

lemma members_step:
  assumes "parse_value n (vs @ 0x2C # zs) = Some (v, 0x2C # zs)"
    and "parse_members n zs = Some (kvs, r)"
  shows "parse_members (Suc n) (quote_json_string k @ 0x3A # vs @ 0x2C # zs) = Some ((k, v) # kvs, r)"
  using assms
  by (simp add: quote_json_string_def skip_ws_Cons not_ws_punct parse_chars_quote_units)

lemma members_last:
  assumes "parse_value n (vs @ 0x7D # zs) = Some (v, 0x7D # zs)"
  shows "parse_members (Suc n) (quote_json_string k @ 0x3A # vs @ 0x7D # zs) = Some ([(k, v)], zs)"
  using assms
  by (simp add: quote_json_string_def skip_ws_Cons not_ws_punct parse_chars_quote_units)

lemma stringify_task: "stringify_value (task_to_value t) = 0x7B # member_text t"
  by (simp add: task_to_value_def member_text_def)

lemma member_text_first: "\<exists>zs. member_text t = 0x22 # zs"
  by (simp add: member_text_def quote_json_string_def)

lemma parse_members_task:
  "parse_members (Suc (Suc (Suc (Suc (Suc e))))) (member_text t @ rest) =
     Some ([(js ''id'', JNum (task_id t)), (js ''text'', JStr (task_text t)),
            (js ''completed'', JBool (completed t)), (js ''createdAt'', JStr (createdAt t))], rest)"
proof -
  let ?m4 = "quote_json_string (js ''createdAt'') @ 0x3A # quote_json_string (createdAt t) @ 0x7D # rest"
  let ?m3 = "quote_json_string (js ''completed'') @ 0x3A # (if completed t then js ''true'' else js ''false'') @ 0x2C # ?m4"
  let ?m2 = "quote_json_string (js ''text'') @ 0x3A # quote_json_string (task_text t) @ 0x2C # ?m3"
  let ?m1 = "quote_json_string (js ''id'') @ 0x3A # number_to_string (task_id t) @ 0x2C # ?m2"
  have p4: "parse_members (Suc (Suc e)) ?m4 = Some ([(js ''createdAt'', JStr (createdAt t))], rest)"
    by (rule members_last) (rule parse_value_string)
  have p3: "parse_members (Suc (Suc (Suc e))) ?m3 =
              Some ([(js ''completed'', JBool (completed t)), (js ''createdAt'', JStr (createdAt t))], rest)"
    by (rule members_step) (rule parse_value_bool, rule p4)
  have p2: "parse_members (Suc (Suc (Suc (Suc e)))) ?m2 =
              Some ([(js ''text'', JStr (task_text t)), (js ''completed'', JBool (completed t)),
                     (js ''createdAt'', JStr (createdAt t))], rest)"
    by (rule members_step) (rule parse_value_string, rule p3)
  have p1: "parse_members (Suc (Suc (Suc (Suc (Suc e))))) ?m1 =
              Some ([(js ''id'', JNum (task_id t)), (js ''text'', JStr (task_text t)),
                     (js ''completed'', JBool (completed t)), (js ''createdAt'', JStr (createdAt t))], rest)"
    by (rule members_step) (rule parse_value_number, rule p2)
  have "member_text t @ rest = ?m1"
    by (simp add: member_text_def)
  then show ?thesis using p1 by simp
qed

lemma js_keys_distinct:
  "js ''id'' \<noteq> js ''text''" "js ''id'' \<noteq> js ''completed''" "js ''id'' \<noteq> js ''createdAt''"
  "js ''text'' \<noteq> js ''completed''" "js ''text'' \<noteq> js ''createdAt''"
  "js ''completed'' \<noteq> js ''createdAt''"
  by (simp_all add: js_def)

lemma object_of_task_members:
  "object_of_members
     [(js ''id'', JNum (task_id t)), (js ''text'', JStr (task_text t)),
      (js ''completed'', JBool (completed t)), (js ''createdAt'', JStr (createdAt t))]
   = task_to_value t"
  using js_keys_distinct by (simp add: object_of_members_def task_to_value_def)

lemma parse_value_task:
  assumes "6 \<le> n"
  shows "parse_value n (stringify_value (task_to_value t) @ rest) = Some (task_to_value t, rest)"
proof -
  obtain e where "n = 6 + e"
    using assms le_Suc_ex by blast
  then have n: "n = Suc (Suc (Suc (Suc (Suc (Suc e)))))"
    by simp
  obtain zs where z: "member_text t = 0x22 # zs"
    using member_text_first by blast
  have sk: "skip_ws (member_text t @ rest) = 0x22 # zs @ rest"
    by (simp add: z skip_ws_Cons not_ws_punct)
  have "parse_value (Suc m) (0x7B # member_text t @ rest) =
          map_option (\<lambda>(kvs, r). (object_of_members kvs, r)) (parse_members m (member_text t @ rest))"
    for m
    using sk by (simp add: skip_ws_Cons not_ws_punct del: parse_members.simps)
  then show ?thesis
    unfolding n stringify_task
    by (simp add: parse_members_task object_of_task_members del: parse_value.simps parse_members.simps)
qed

subsection \<open>The task array and the load step\<close>

lemma join_comma_Cons:
  "join_comma (x # xs) = x @ (if xs = [] then [] else 0x2C # join_comma xs)"
  by (cases xs) simp_all

lemma length_join_comma:
  "\<forall>x \<in> set xs. x \<noteq> [] \<Longrightarrow> length xs \<le> length (join_comma xs)"
proof (induction xs rule: join_comma.induct)
  case 1
  show ?case by simp
next
  case (2 x)
  then show ?case by (cases x) simp_all
next
  case (3 x y ys)
  then show ?case by (cases x) simp_all
qed

lemma parse_elements_tasks:
  assumes "ts \<noteq> []" and "length ts + 6 \<le> n"
  shows "parse_elements n (join_comma (map (\<lambda>t. stringify_value (task_to_value t)) ts) @ 0x5D # rest)
           = Some (map task_to_value ts, rest)"
  using assms
proof (induction ts arbitrary: n rule: list_nonempty_induct)
  case (single t)
  then obtain m where n: "n = Suc m" and m: "6 \<le> m"
    by (cases n) auto
  have "parse_value m (stringify_value (task_to_value t) @ 0x5D # rest)
          = Some (task_to_value t, 0x5D # rest)"
    using m by (rule parse_value_task)
  then show ?case
    unfolding n by (simp add: skip_ws_Cons not_ws_punct del: parse_value.simps)
next
  case (cons t ts)
  then obtain m where n: "n = Suc m" and m: "length ts + 6 \<le> m"
    by (cases n) auto
  let ?zs = "join_comma (map (\<lambda>t. stringify_value (task_to_value t)) ts) @ 0x5D # rest"
  have v: "parse_value m (stringify_value (task_to_value t) @ 0x2C # ?zs)
          = Some (task_to_value t, 0x2C # ?zs)"
    using m by (intro parse_value_task) simp
  have e: "parse_elements m ?zs = Some (map task_to_value ts, rest)"
    using cons.IH [OF m] .
  have j: "join_comma (map (\<lambda>t. stringify_value (task_to_value t)) (t # ts)) @ 0x5D # rest
             = stringify_value (task_to_value t) @ 0x2C # ?zs"
    using cons.hyps by (simp add: join_comma_Cons)
  show ?case
    unfolding n j using v e
    by (simp add: skip_ws_Cons not_ws_punct del: parse_value.simps)
qed

lemma fuel_Suc: "2 * length s + 2 = Suc (2 * length s + 1)"
  by simp

lemma JSON_parse_stringify:
  "JSON_parse (JSON_stringify ts) = Some (JArr (map task_to_value ts))"
proof (cases "ts = []")
  case True
  have e: "parse_value (Suc n) [0x5B, 0x5D] = Some (JArr [], [])" for n
    by (simp add: skip_ws_Cons not_ws_punct)
  have s: "JSON_stringify ts = [0x5B, 0x5D]"
    using True by (simp add: JSON_stringify_def)
  have p: "parse_value (2 * length [0x5B, 0x5D :: 16 word] + 2) [0x5B, 0x5D] = Some (JArr [], [])"
    unfolding fuel_Suc by (rule e)
  show ?thesis
    unfolding JSON_parse_def s p using True by (simp add: skip_ws_def)
next
  case False
  let ?strs = "map (\<lambda>t. stringify_value (task_to_value t)) ts"
  let ?s = "0x5B # join_comma ?strs @ [0x5D]"
  have s: "JSON_stringify ts = ?s"
    by (simp add: JSON_stringify_def comp_def)
  obtain t ts' where ts: "ts = t # ts'"
    using False by (cases ts) auto
  obtain zs where z: "join_comma ?strs @ [0x5D] = 0x7B # zs"
    by (simp add: ts join_comma_Cons stringify_task)
  have "\<forall>x \<in> set ?strs. x \<noteq> []"
    by (simp add: stringify_task)
  then have "length ?strs \<le> length (join_comma ?strs)"
    by (rule length_join_comma)
  then have f: "length ts + 6 \<le> 2 * length ?s + 1"
    using False by (cases ts) simp_all
  have e: "parse_elements (2 * length ?s + 1) (join_comma ?strs @ 0x5D # [])
             = Some (map task_to_value ts, [])"
    using False f by (rule parse_elements_tasks)
  have sk: "skip_ws (join_comma ?strs @ [0x5D]) = 0x7B # zs"
    by (simp add: z skip_ws_Cons not_ws_punct)
  have "parse_value (Suc (2 * length ?s + 1)) ?s = Some (JArr (map task_to_value ts), [])"
    using e sk
    by (simp add: skip_ws_Cons not_ws_punct del: parse_elements.simps)
  then show ?thesis
    unfolding JSON_parse_def s fuel_Suc by (simp add: skip_ws_def)
qed

lemma task_of_value_task: "task_of_value (task_to_value t) = Some t"
  using js_keys_distinct by (simp add: task_of_value_def task_to_value_def)

lemma tasks_of_value_tasks: "tasks_of_value (JArr (map task_to_value ts)) = Some ts"
  by (induction ts) (simp_all add: tasks_of_value_def task_of_value_task)

lemma JSON_stringify_nonempty: "JSON_stringify ts \<noteq> []"
  by (simp add: JSON_stringify_def)

text \<open>
  Claim C9. \<open>saveAndRender\<close> stores the serialized collection under \<open>orbitTasks\<close>;
  \<open>JSON.parse\<close> reads that string back as the array of the same task objects, and the
  \<open>DOMContentLoaded\<close> handler of a page started on that storage sets \<open>tasks\<close> to
  the collection that was saved: the same tasks, in the same order, with the same id,
  text, completed flag and creation date.
\<close>

theorem persist_load_roundtrip:
  "JSON_parse (JSON_stringify (tasks st)) = Some (JArr (map task_to_value (tasks st)))
   \<and> orbitTasks (saveAndRender st) = Some (JSON_stringify (tasks st))
   \<and> map_option tasks (DOMContentLoaded (initial (orbitTasks (saveAndRender st)) theme))
       = Some (tasks st)"
  by (simp add: DOMContentLoaded_def Let_def setTheme_def initial_def saveAndRender_def
      JSON_parse_stringify tasks_of_value_tasks JSON_stringify_nonempty)

theorem persist_load_roundtrip_witness:
  "map_option tasks (DOMContentLoaded (initial (orbitTasks (saveAndRender app0)) None))
     = Some [milk, bread]
   \<and> map_option tasks
         (DOMContentLoaded (initial (orbitTasks (saveAndRender (app0\<lparr>tasks := []\<rparr>))) None))
     = Some []"
proof -
  have a: "tasks app0 = [milk, bread]"
    by (simp add: app0_def)
  have b: "tasks (app0\<lparr>tasks := []\<rparr>) = []"
    by simp
  show ?thesis
    using persist_load_roundtrip [of app0 None]
      persist_load_roundtrip [of "app0\<lparr>tasks := []\<rparr>" None]
    unfolding a b by blast
qed

text \<open>
  The stored text of a one-task collection whose text holds a quote, a backslash, a
  line feed and a lone surrogate: each is written as an escape.
\<close>

lemma JSON_stringify_example:
  "JSON_stringify
     [\<lparr>task_id = 17, task_text = [0x61, 0x22, 0x5C, 0x0A, 0xD800], completed = True,
       createdAt = js ''1/2/2024''\<rparr>]
   = js ''[{'' @ [0x22] @ js ''id'' @ [0x22] @ js '':17,'' @ [0x22] @ js ''text'' @ [0x22]
     @ js '':'' @ [0x22, 0x61, 0x5C, 0x22, 0x5C, 0x5C, 0x5C, 0x6E, 0x5C] @ js ''ud800'' @ [0x22]
     @ js '','' @ [0x22] @ js ''completed'' @ [0x22] @ js '':true,'' @ [0x22]
     @ js ''createdAt'' @ [0x22] @ js '':'' @ [0x22] @ js ''1/2/2024'' @ [0x22] @ js ''}]''"
  by (simp add: JSON_stringify_def task_to_value_def quote_json_string_def quote_unit_def
      unicode_escape_def hex_digit_def is_lead_def is_trail_def number_to_string_def
      digits_of_nat.simps js_def)

subsection \<open>The fuel of the parser\<close>

text \<open>
  A successful parser returns a text shorter than the one it was given, so the fuel
  that \<open>JSON_parse\<close> provides is never the reason for a failure: with any larger
  amount the result is the same.
\<close>

lemma skip_ws_shorter: "skip_ws s = c # cs \<Longrightarrow> length cs < length s"
proof -
  assume "skip_ws s = c # cs"
  then have "length (c # cs) \<le> length s"
    unfolding skip_ws_def by (metis length_dropWhile_le)
  then show ?thesis by simp
qed

lemma cons_unit_Some:
  "cons_unit c x = Some (k, r) \<Longrightarrow> \<exists>k'. x = Some (k', r)"
  by (cases x) (auto simp: cons_unit_def)

lemma parse_chars_shorter: "parse_chars s = Some (k, r) \<Longrightarrow> length r < length s"
proof (induction s arbitrary: k rule: parse_chars.induct)
  case 1
  then show ?case by simp
next
  case (2 c cs)
  show ?case
  proof (cases "c = 0x22")
    case True
    then show ?thesis using 2(4) by simp
  next
    case q: False
    show ?thesis
    proof (cases "c = 0x5C")
      case False
      then have "cons_unit c (parse_chars cs) = Some (k, r)"
        using q 2(4) by (simp split: if_splits)
      then obtain k' where "parse_chars cs = Some (k', r)"
        using cons_unit_Some by blast
      moreover have "\<not> c < 0x20" using q False 2(4) by (auto split: if_splits)
      ultimately have "length r < length cs" using q False 2(3) by blast
      then show ?thesis by simp
    next
      case True
      then obtain e es where cs: "cs = e # es"
        using 2(4) q by (cases cs) auto
      show ?thesis
      proof (cases "e = 0x75")
        case u: True
        then obtain h3 h2 h1 h0 rest u' where
          es: "es = h3 # h2 # h1 # h0 # rest" and h: "hex4 h3 h2 h1 h0 = Some u'"
          and c: "cons_unit u' (parse_chars rest) = Some (k, r)"
          using 2(4) q True cs
          by (auto split: list.splits option.splits)
        obtain k' where "parse_chars rest = Some (k', r)"
          using c cons_unit_Some by blast
        then have "length r < length rest"
          using 2(1) q True cs u es h by blast
        then show ?thesis by (simp add: cs es)
      next
        case nu: False
        then obtain u' where u': "unescape e = Some u'"
          and c: "cons_unit u' (parse_chars es) = Some (k, r)"
          using 2(4) q True cs by (auto split: option.splits)
        obtain k' where "parse_chars es = Some (k', r)"
          using c cons_unit_Some by blast
        then have "length r < length es"
          using 2(2) q True cs nu u' by blast
        then show ?thesis by (simp add: cs)
      qed
    qed
  qed
qed

lemma parse_number_shorter: "parse_number s = Some (v, r) \<Longrightarrow> length r < length s"
proof -
  assume a: "parse_number s = Some (v, r)"
  define s1 where "s1 = (if s \<noteq> [] \<and> hd s = 0x2D then tl s else s)"
  have d: "takeWhile is_digit s1 \<noteq> []" and r: "r = dropWhile is_digit s1"
    using a by (auto simp: parse_number_def Let_def s1_def split: if_splits)
  have "length (takeWhile is_digit s1) + length (dropWhile is_digit s1) = length s1"
    by (metis length_append takeWhile_dropWhile_id)
  then have "length r < length s1" using d r by (cases "takeWhile is_digit s1") auto
  moreover have "length s1 \<le> length s" by (simp add: s1_def)
  ultimately show ?thesis by simp
qed

lemma take_Cons_drop_shorter: "take k s = x # xs \<Longrightarrow> length (drop k s) < length s"
proof -
  assume a: "take k s = x # xs"
  then have "s \<noteq> []" by auto
  moreover have "k \<noteq> 0" using a by (cases k) auto
  ultimately show ?thesis by simp
qed

lemma parse_literal_shorter: "parse_literal s = Some (v, r) \<Longrightarrow> length r < length s"
proof -
  assume a: "parse_literal s = Some (v, r)"
  consider (t) "take 4 s = js ''true''" "r = drop 4 s"
    | (f) "take 5 s = js ''false''" "r = drop 5 s"
    | (n) "take 4 s = js ''null''" "r = drop 4 s"
    | (num) "parse_number s = Some (v, r)"
    using a by (auto simp: parse_literal_def split: if_splits)
  then show ?thesis
  proof cases
    case t
    then show ?thesis using take_Cons_drop_shorter [of 4 s] by (simp add: js_def)
  next
    case f
    then show ?thesis using take_Cons_drop_shorter [of 5 s] by (simp add: js_def)
  next
    case n
    then show ?thesis using take_Cons_drop_shorter [of 4 s] by (simp add: js_def)
  next
    case num
    then show ?thesis by (rule parse_number_shorter)
  qed
qed

lemma skip_ws_length: "length (skip_ws s) \<le> length s"
  unfolding skip_ws_def by (rule length_dropWhile_le)

lemma value_shorter_step:
  assumes E: "\<And>s vs r. parse_elements n s = Some (vs, r) \<Longrightarrow> length r < length s"
    and M: "\<And>s kvs r. parse_members n s = Some (kvs, r) \<Longrightarrow> length r < length s"
    and a: "parse_value (Suc n) s = Some (v, r)"
  shows "length r < length s"
proof (cases "skip_ws s")
  case Nil
  then show ?thesis using a by simp
next
  case (Cons c cs)
  have cs: "length cs < length s" using Cons by (rule skip_ws_shorter)
  consider (str) "c = 0x22" | (arr) "c \<noteq> 0x22" "c = 0x5B"
    | (obj) "c \<noteq> 0x22" "c \<noteq> 0x5B" "c = 0x7B"
    | (lit) "c \<noteq> 0x22" "c \<noteq> 0x5B" "c \<noteq> 0x7B"
    by blast
  then show ?thesis
  proof cases
    case str
    then obtain k where "parse_chars cs = Some (k, r)"
      using a Cons by auto
    then have "length r < length cs" by (rule parse_chars_shorter)
    then show ?thesis using cs by simp
  next
    case arr
    show ?thesis
    proof (cases "skip_ws cs")
      case Nil
      then show ?thesis using a Cons arr by simp
    next
      case d: (Cons d ds)
      have ds: "length ds < length cs" using d by (rule skip_ws_shorter)
      show ?thesis
      proof (cases "d = 0x5D")
        case True
        then have "r = ds" using a Cons arr d by simp
        then show ?thesis using ds cs by simp
      next
        case False
        then obtain vs where "parse_elements n cs = Some (vs, r)"
          using a Cons arr d by auto
        then have "length r < length cs" by (rule E)
        then show ?thesis using cs by simp
      qed
    qed
  next
    case obj
    show ?thesis
    proof (cases "skip_ws cs")
      case Nil
      then show ?thesis using a Cons obj by simp
    next
      case d: (Cons d ds)
      have ds: "length ds < length cs" using d by (rule skip_ws_shorter)
      show ?thesis
      proof (cases "d = 0x7D")
        case True
        then have "r = ds" using a Cons obj d by simp
        then show ?thesis using ds cs by simp
      next
        case False
        then obtain kvs where "parse_members n cs = Some (kvs, r)"
          using a Cons obj d by auto
        then have "length r < length cs" by (rule M)
        then show ?thesis using cs by simp
      qed
    qed
  next
    case lit
    then have "parse_literal (c # cs) = Some (v, r)"
      using a Cons by simp
    then have "length r < length (c # cs)" by (rule parse_literal_shorter)
    moreover have "length (c # cs) \<le> length s"
      using skip_ws_length [of s] Cons by simp
    ultimately show ?thesis by simp
  qed
qed

lemma elements_shorter_step:
  assumes V: "\<And>s v r. parse_value n s = Some (v, r) \<Longrightarrow> length r < length s"
    and E: "\<And>s vs r. parse_elements n s = Some (vs, r) \<Longrightarrow> length r < length s"
    and a: "parse_elements (Suc n) s = Some (vs, r)"
  shows "length r < length s"
proof -
  obtain v r1 where v: "parse_value n s = Some (v, r1)"
    using a by (auto split: option.splits)
  have r1: "length r1 < length s" using v by (rule V)
  obtain d ds where d: "skip_ws r1 = d # ds"
    using a v by (cases "skip_ws r1") auto
  have ds: "length ds < length r1" using d by (rule skip_ws_shorter)
  show ?thesis
  proof (cases "d = 0x2C")
    case True
    then obtain vs' where "parse_elements n ds = Some (vs', r)"
      using a v d by auto
    then have "length r < length ds" by (rule E)
    then show ?thesis using ds r1 by simp
  next
    case False
    then have "r = ds" using a v d by (auto split: if_splits)
    then show ?thesis using ds r1 by simp
  qed
qed

lemma members_shorter_step:
  assumes V: "\<And>s v r. parse_value n s = Some (v, r) \<Longrightarrow> length r < length s"
    and M: "\<And>s kvs r. parse_members n s = Some (kvs, r) \<Longrightarrow> length r < length s"
    and a: "parse_members (Suc n) s = Some (kvs, r)"
  shows "length r < length s"
proof -
  obtain c cs where c: "skip_ws s = c # cs"
    using a by (cases "skip_ws s") auto
  have cs: "length cs < length s" using c by (rule skip_ws_shorter)
  have q: "c = 0x22" using a c by (auto split: if_splits)
  obtain k r0 where k: "parse_chars cs = Some (k, r0)"
    using a c q by (auto split: option.splits)
  have r0: "length r0 < length cs" using k by (rule parse_chars_shorter)
  obtain d ds where d: "skip_ws r0 = d # ds"
    using a c q k by (cases "skip_ws r0") auto
  have ds: "length ds < length r0" using d by (rule skip_ws_shorter)
  have col: "d = 0x3A" using a c q k d by (auto split: if_splits)
  obtain v r2 where v: "parse_value n ds = Some (v, r2)"
    using a c q k d col by (auto split: option.splits)
  have r2: "length r2 < length ds" using v by (rule V)
  obtain e es where e: "skip_ws r2 = e # es"
    using a c q k d col v by (cases "skip_ws r2") auto
  have es: "length es < length r2" using e by (rule skip_ws_shorter)
  show ?thesis
  proof (cases "e = 0x2C")
    case True
    then obtain kvs' where "parse_members n es = Some (kvs', r)"
      using a c q k d col v e by auto
    then have "length r < length es" by (rule M)
    then show ?thesis using es r2 ds r0 cs by simp
  next
    case False
    then have "r = es" using a c q k d col v e by (auto split: if_splits)
    then show ?thesis using es r2 ds r0 cs by simp
  qed
qed

lemma parse_shorter_all:
  "(\<forall>s v r. parse_value n s = Some (v, r) \<longrightarrow> length r < length s)
   \<and> (\<forall>s vs r. parse_elements n s = Some (vs, r) \<longrightarrow> length r < length s)
   \<and> (\<forall>s kvs r. parse_members n s = Some (kvs, r) \<longrightarrow> length r < length s)"
proof (induction n)
  case 0
  show ?case by simp
next
  case (Suc n)
  have V: "parse_value n s = Some (v, r) \<Longrightarrow> length r < length s" for s v r
    using Suc by blast
  have E: "parse_elements n s = Some (vs, r) \<Longrightarrow> length r < length s" for s vs r
    using Suc by blast
  have M: "parse_members n s = Some (kvs, r) \<Longrightarrow> length r < length s" for s kvs r
    using Suc by blast
  have V': "length r < length s" if "parse_value (Suc n) s = Some (v, r)" for s v r
    using E M that by (rule value_shorter_step)
  have E': "length r < length s" if "parse_elements (Suc n) s = Some (vs, r)" for s vs r
    using V E that by (rule elements_shorter_step)
  have M': "length r < length s" if "parse_members (Suc n) s = Some (kvs, r)" for s kvs r
    using V M that by (rule members_shorter_step)
  show ?case
    using V' E' M' by blast
qed

lemma parse_value_shorter: "parse_value n s = Some (v, r) \<Longrightarrow> length r < length s"
  using parse_shorter_all by blast

lemma parse_fuel_independent:
  "(\<forall>n m. 2 * length s < n \<longrightarrow> 2 * length s < m \<longrightarrow> parse_value n s = parse_value m s)
   \<and> (\<forall>n m. 2 * length s + 1 < n \<longrightarrow> 2 * length s + 1 < m \<longrightarrow>
          parse_elements n s = parse_elements m s)
   \<and> (\<forall>n m. 2 * length s + 1 < n \<longrightarrow> 2 * length s + 1 < m \<longrightarrow>
          parse_members n s = parse_members m s)"
proof (induction "length s" arbitrary: s rule: less_induct)
  case less
  have IHV: "parse_value n t = parse_value m t"
    if "length t < length s" "2 * length t < n" "2 * length t < m" for t n m
    using less [OF that(1)] that(2,3) by blast
  have IHE: "parse_elements n t = parse_elements m t"
    if "length t < length s" "2 * length t + 1 < n" "2 * length t + 1 < m" for t n m
    using less [OF that(1)] that(2,3) by blast
  have IHM: "parse_members n t = parse_members m t"
    if "length t < length s" "2 * length t + 1 < n" "2 * length t + 1 < m" for t n m
    using less [OF that(1)] that(2,3) by blast
  have V: "parse_value n s = parse_value m s"
    if b: "2 * length s < n" "2 * length s < m" for n m
  proof -
    obtain n' m' where nm: "n = Suc n'" "m = Suc m'"
      using b by (cases n; cases m) auto
    show ?thesis
    proof (cases "skip_ws s")
      case Nil
      then show ?thesis by (simp add: nm)
    next
      case (Cons c cs)
      have cs: "length cs < length s" using Cons by (rule skip_ws_shorter)
      have e: "parse_elements n' cs = parse_elements m' cs"
        using cs b nm by (intro IHE) simp_all
      have m: "parse_members n' cs = parse_members m' cs"
        using cs b nm by (intro IHM) simp_all
      show ?thesis
        by (simp add: nm Cons e m cong: list.case_cong if_cong
            del: parse_elements.simps parse_members.simps)
    qed
  qed
  have E: "parse_elements n s = parse_elements m s"
    if b: "2 * length s + 1 < n" "2 * length s + 1 < m" for n m
  proof -
    obtain n' m' where nm: "n = Suc n'" "m = Suc m'"
      using b by (cases n; cases m) auto
    have v: "parse_value n' s = parse_value m' s"
      using b nm by (intro V) simp_all
    show ?thesis
    proof (cases "parse_value m' s")
      case None
      then show ?thesis by (simp add: nm v del: parse_value.simps)
    next
      case (Some vr)
      obtain v0 r where vr: "vr = (v0, r)" by (cases vr)
      have r: "length r < length s"
        using Some vr parse_value_shorter by blast
      show ?thesis
      proof (cases "skip_ws r")
        case Nil
        then show ?thesis by (simp add: nm v Some vr del: parse_value.simps)
      next
        case (Cons d ds)
        have ds: "length ds < length r" using Cons by (rule skip_ws_shorter)
        have e: "parse_elements n' ds = parse_elements m' ds"
          using ds r b nm by (intro IHE) simp_all
        show ?thesis
          unfolding nm parse_elements.simps(2) [of n' s] parse_elements.simps(2) [of m' s]
          by (simp add: v Some vr Cons e cong: list.case_cong if_cong
              del: parse_value.simps parse_elements.simps)
      qed
    qed
  qed
  have M: "parse_members n s = parse_members m s"
    if b: "2 * length s + 1 < n" "2 * length s + 1 < m" for n m
  proof -
    obtain n' m' where nm: "n = Suc n'" "m = Suc m'"
      using b by (cases n; cases m) auto
    show ?thesis
    proof (cases "skip_ws s")
      case Nil
      then show ?thesis by (simp add: nm)
    next
      case c: (Cons c cs)
      have cs: "length cs < length s" using c by (rule skip_ws_shorter)
      show ?thesis
      proof (cases "parse_chars cs")
        case None
        then show ?thesis by (simp add: nm c)
      next
        case (Some kr)
        obtain k r0 where kr: "kr = (k, r0)" by (cases kr)
        have r0: "length r0 < length cs"
          using Some kr parse_chars_shorter by blast
        show ?thesis
        proof (cases "skip_ws r0")
          case Nil
          then show ?thesis by (simp add: nm c Some kr)
        next
          case d: (Cons d ds)
          have ds: "length ds < length r0" using d by (rule skip_ws_shorter)
          have v: "parse_value n' ds = parse_value m' ds"
            using ds r0 cs b nm by (intro IHV) simp_all
          show ?thesis
          proof (cases "parse_value m' ds")
            case None
            then show ?thesis
              by (simp add: nm c Some kr d v del: parse_value.simps)
          next
            case v2: (Some vr)
            obtain v0 r2 where vr: "vr = (v0, r2)" by (cases vr)
            have r2: "length r2 < length ds"
              using v2 vr parse_value_shorter by blast
            show ?thesis
            proof (cases "skip_ws r2")
              case Nil
              then show ?thesis
                by (simp add: nm c Some kr d v v2 vr del: parse_value.simps)
            next
              case e: (Cons e es)
              have es: "length es < length r2" using e by (rule skip_ws_shorter)
              have m: "parse_members n' es = parse_members m' es"
                using es r2 ds r0 cs b nm by (intro IHM) simp_all
              show ?thesis
                unfolding nm parse_members.simps(2) [of n' s] parse_members.simps(2) [of m' s]
                by (simp add: c Some kr d v v2 vr e m cong: list.case_cong if_cong
                    del: parse_value.simps parse_members.simps)
            qed
          qed
        qed
      qed
    qed
  qed
  show ?case using V E M by blast
qed

lemma JSON_parse_fuel:
  assumes "2 * length s + 2 \<le> n"
  shows "parse_value n s = parse_value (2 * length s + 2) s"
proof -
  have "2 * length s < n" "2 * length s < 2 * length s + 2"
    using assms by simp_all
  then show ?thesis
    using parse_fuel_independent [of s] by blast
qed

end
